theory Spec2Isabelle
  imports Main "HOL-Library.AList" "HOL-Library.Char_ord" "HOL-Library.List_Lexorder"
    "HOL-Library.Sublist"
begin

section \<open>Values of the collection\<close>

text \<open>
  Querium stores JavaScript objects and indexes them by the values of their fields.
  The model works on a closed universe of values: a scalar is \<open>undefined\<close>, \<open>null\<close>, a
  boolean, a number or a string; numbers are integers (no NaN, no fractions) and a string
  is a list of characters. A stored object is a flat mapping from field names to scalars,
  kept as an association list in the order in which the fields were created; reading a
  field that is absent yields \<open>undefined\<close>.
\<close>

datatype scalar = JUndef | JNull | JBool bool | JNum int | JStr string

type_synonym obj = "(string \<times> scalar) list"

text \<open>\<open>x == null\<close> in JavaScript: true of \<open>null\<close> and of \<open>undefined\<close>.\<close>

fun nullish :: "scalar \<Rightarrow> bool" where
  "nullish JUndef = True"
| "nullish JNull = True"
| "nullish _ = False"

text \<open>\<open>obj[key]\<close> on a stored object.\<close>

definition getProp :: "obj \<Rightarrow> string \<Rightarrow> scalar" where
  "getProp ob k = (case map_of ob k of None \<Rightarrow> JUndef | Some v \<Rightarrow> v)"

text \<open>
  \<open>acc[k]\<close> where \<open>acc\<close> is a scalar that is neither \<open>null\<close> nor \<open>undefined\<close>: a primitive has
  no data field of its own, so the read yields \<open>undefined\<close> (the \<open>length\<close> and the index
  properties of a string are not field names of a record and are left out).
\<close>

definition scalarProp :: "scalar \<Rightarrow> string \<Rightarrow> scalar" where
  "scalarProp acc k = JUndef"

text \<open>\<open>key.split(".")\<close>.\<close>

fun splitDot :: "string \<Rightarrow> string list" where
  "splitDot [] = [[]]"
| "splitDot (c # cs) =
     (if c = CHR ''.'' then [] # splitDot cs
      else (case splitDot cs of [] \<Rightarrow> [[c]] | w # ws \<Rightarrow> (c # w) # ws))"

text \<open>
  \<open>getByKey\<close>: a key without a dot is read directly; a dotted key is split and reduced over
  the object with \<open>(acc, k) => acc == null ? acc : acc[k]\<close>. The first step reads a field
  of the object itself, the later ones read from the scalar found there.
\<close>

definition getByKey :: "obj \<Rightarrow> string \<Rightarrow> scalar" where
  "getByKey ob key =
     (if CHR ''.'' \<notin> set key then getProp ob key
      else (case splitDot key of
              [] \<Rightarrow> JUndef
            | k # ks \<Rightarrow> foldl (\<lambda>acc k'. if nullish acc then acc else scalarProp acc k')
                          (getProp ob k) ks))"

text \<open>
  The raw key value of a record under an index: one scalar, or an array of scalars for a
  composite key.
\<close>

datatype rawkey = Single scalar | Composite "scalar list"

datatype keyspec = KStr string | KArr "string list" | KFn "obj \<Rightarrow> rawkey"

fun makeKeyGetter :: "keyspec \<Rightarrow> obj \<Rightarrow> rawkey" where
  "makeKeyGetter (KFn f) = f"
| "makeKeyGetter (KArr ks) = (\<lambda>ob. Composite (map (getByKey ob) ks))"
| "makeKeyGetter (KStr k) = (\<lambda>ob. Single (getByKey ob k))"

section \<open>Comparison\<close>

text \<open>Decimal rendering of integers, as \<open>String(n)\<close> and \<open>JSON.stringify(n)\<close> give it.\<close>

definition digitChar :: "nat \<Rightarrow> char" where
  "digitChar n = ''0123456789'' ! n"

fun showNat :: "nat \<Rightarrow> string" where
  "showNat n = (if n < 10 then [digitChar n] else showNat (n div 10) @ [digitChar (n mod 10)])"

declare showNat.simps [simp del]

definition showInt :: "int \<Rightarrow> string" where
  "showInt i = (if i < 0 then CHR ''-'' # showNat (nat (- i)) else showNat (nat i))"

text \<open>
  \<open>ToNumber\<close> on a string, for the decimal integer literals: surrounding white space is
  dropped, the empty string is 0, an optional sign is followed by digits. Every other
  string is NaN (\<open>None\<close>); literals that denote fractions, exponents or other radixes lie
  outside the integer model.
\<close>

definition isSpace :: "char \<Rightarrow> bool" where
  "isSpace c = (c \<in> set [CHR '' '', CHR 0x09, CHR 0x0A, CHR 0x0B, CHR 0x0C, CHR 0x0D])"

definition isDigit :: "char \<Rightarrow> bool" where
  "isDigit c = (c \<in> set ''0123456789'')"

definition digitVal :: "char \<Rightarrow> nat" where
  "digitVal c = of_char c - 48"

definition readNat :: "string \<Rightarrow> nat" where
  "readNat s = foldl (\<lambda>a c. 10 * a + digitVal c) 0 s"

definition trimSpaces :: "string \<Rightarrow> string" where
  "trimSpaces s = rev (dropWhile isSpace (rev (dropWhile isSpace s)))"

definition strToNumber :: "string \<Rightarrow> int option" where
  "strToNumber s =
     (let t = trimSpaces s in
      if t = [] then Some 0
      else if hd t = CHR ''-'' \<and> tl t \<noteq> [] \<and> list_all isDigit (tl t) then Some (- int (readNat (tl t)))
      else if hd t = CHR ''+'' \<and> tl t \<noteq> [] \<and> list_all isDigit (tl t) then Some (int (readNat (tl t)))
      else if list_all isDigit t then Some (int (readNat t))
      else None)"

fun toNumber :: "scalar \<Rightarrow> int option" where
  "toNumber JUndef = None"
| "toNumber JNull = Some 0"
| "toNumber (JBool b) = Some (if b then 1 else 0)"
| "toNumber (JNum n) = Some n"
| "toNumber (JStr s) = strToNumber s"

text \<open>
  \<open>a < b\<close>: two strings compare character by character; otherwise both sides are
  converted to numbers and the comparison is false when either is NaN.
\<close>

fun jsLess :: "scalar \<Rightarrow> scalar \<Rightarrow> bool" where
  "jsLess (JStr s) (JStr t) = (s < t)"
| "jsLess a b = (case (toNumber a, toNumber b) of (Some m, Some n) \<Rightarrow> m < n | _ \<Rightarrow> False)"

definition defaultCompare :: "scalar \<Rightarrow> scalar \<Rightarrow> int" where
  "defaultCompare a b =
     (if a = b then 0
      else if nullish a then 1
      else if nullish b then - 1
      else if jsLess a b then - 1 else 1)"

text \<open>\<open>normalizeComposite\<close> copies an array and returns everything else as it is.\<close>

definition normalizeComposite :: "rawkey \<Rightarrow> rawkey" where
  "normalizeComposite v = v"

text \<open>
  What \<open>A.length\<close> and \<open>A[i]\<close> see of a key value in \<open>compositeCompare\<close>: an array has its
  elements, a string its characters (each a one-character string), a number or a boolean
  has no length (\<open>undefined\<close>), and reading \<open>length\<close> of \<open>null\<close> or \<open>undefined\<close> throws.
\<close>

datatype seqview = Elems "scalar list" | NoLength | Throws

fun asSeq :: "rawkey \<Rightarrow> seqview" where
  "asSeq (Composite xs) = Elems xs"
| "asSeq (Single (JStr s)) = Elems (map (\<lambda>c. JStr [c]) s)"
| "asSeq (Single JUndef) = Throws"
| "asSeq (Single JNull) = Throws"
| "asSeq (Single _) = NoLength"

text \<open>
  The loop of \<open>compositeCompare\<close> over the first \<open>min(A.length, B.length)\<close> positions,
  followed by \<open>defaultCompare(A.length, B.length)\<close>.
\<close>

fun lexCompare :: "(scalar \<Rightarrow> scalar \<Rightarrow> int) \<Rightarrow> scalar list \<Rightarrow> scalar list \<Rightarrow> int" where
  "lexCompare cmp [] [] = 0"
| "lexCompare cmp [] (y # ys) = - 1"
| "lexCompare cmp (x # xs) [] = 1"
| "lexCompare cmp (x # xs) (y # ys) =
     (let c = cmp x y in if c \<noteq> 0 then c else lexCompare cmp xs ys)"

text \<open>
  \<open>compositeCompare\<close>; \<open>None\<close> is the TypeError of reading \<open>length\<close> of \<open>null\<close>. When one side
  has no length, \<open>Math.min\<close> is NaN, the loop does not run, and the result is
  \<open>defaultCompare\<close> of a number and \<open>undefined\<close>.
\<close>

fun compositeCompare :: "(scalar \<Rightarrow> scalar \<Rightarrow> int) \<Rightarrow> rawkey \<Rightarrow> rawkey \<Rightarrow> int option" where
  "compositeCompare cmp (Single x) (Single y) = Some (cmp x y)"
| "compositeCompare cmp a b =
     (case (asSeq (normalizeComposite a), asSeq (normalizeComposite b)) of
        (Throws, _) \<Rightarrow> None
      | (_, Throws) \<Rightarrow> None
      | (Elems xs, Elems ys) \<Rightarrow> Some (lexCompare cmp xs ys)
      | (Elems xs, NoLength) \<Rightarrow> Some (defaultCompare (JNum (int (length xs))) JUndef)
      | (NoLength, Elems ys) \<Rightarrow> Some (defaultCompare JUndef (JNum (int (length ys))))
      | (NoLength, NoLength) \<Rightarrow> Some (defaultCompare JUndef JUndef))"

section \<open>Canonical keys and key strings\<close>

text \<open>
  \<open>JSON.stringify\<close> on a string: the text between double quotes, with the quote, the
  backslash and the control characters escaped.
\<close>

definition hexDigit :: "nat \<Rightarrow> char" where
  "hexDigit n = ''0123456789abcdef'' ! n"

definition jsonEscape :: "char \<Rightarrow> string" where
  "jsonEscape c =
     (if c = CHR 0x22 then [CHR 0x5C, CHR 0x22]
      else if c = CHR 0x5C then [CHR 0x5C, CHR 0x5C]
      else if c = CHR 0x08 then [CHR 0x5C, CHR ''b'']
      else if c = CHR 0x09 then [CHR 0x5C, CHR ''t'']
      else if c = CHR 0x0A then [CHR 0x5C, CHR ''n'']
      else if c = CHR 0x0C then [CHR 0x5C, CHR ''f'']
      else if c = CHR 0x0D then [CHR 0x5C, CHR ''r'']
      else if (of_char c :: nat) < 32
        then [CHR 0x5C, CHR ''u'', CHR ''0'', CHR ''0'',
              hexDigit ((of_char c :: nat) div 16), hexDigit ((of_char c :: nat) mod 16)]
      else [c])"

definition jsonQuote :: "string \<Rightarrow> string" where
  "jsonQuote s = CHR 0x22 # concat (map jsonEscape s) @ [CHR 0x22]"

text \<open>
  \<open>JSON.stringify\<close> on a scalar standing alone: \<open>undefined\<close> has no JSON text and the call
  returns \<open>undefined\<close> (\<open>None\<close>).
\<close>

fun jsonScalar :: "scalar \<Rightarrow> string option" where
  "jsonScalar JUndef = None"
| "jsonScalar JNull = Some ''null''"
| "jsonScalar (JBool b) = Some (if b then ''true'' else ''false'')"
| "jsonScalar (JNum n) = Some (showInt n)"
| "jsonScalar (JStr s) = Some (jsonQuote s)"

text \<open>Inside an array, an element without JSON text is written as \<open>null\<close>.\<close>

definition jsonElement :: "scalar \<Rightarrow> string" where
  "jsonElement v = (case jsonScalar v of None \<Rightarrow> ''null'' | Some t \<Rightarrow> t)"

text \<open>\<open>Array.prototype.join\<close> on strings.\<close>

fun joinWith :: "string \<Rightarrow> string list \<Rightarrow> string" where
  "joinWith sep [] = []"
| "joinWith sep [x] = x"
| "joinWith sep (x # y # ys) = x @ sep @ joinWith sep (y # ys)"

text \<open>
  \<open>canonicalKey(v) = JSON.stringify(v)\<close>. The result keys the map of an equality index;
  \<open>None\<close> is the key \<open>undefined\<close>.
\<close>

fun canonicalKey :: "rawkey \<Rightarrow> string option" where
  "canonicalKey (Single v) = jsonScalar v"
| "canonicalKey (Composite vs) = Some (''['' @ joinWith '','' (map jsonElement vs) @ '']'')"

text \<open>\<open>valueToString\<close>: the string a prefix index files a key value under.\<close>

fun scalarToString :: "scalar \<Rightarrow> string" where
  "scalarToString JUndef = []"
| "scalarToString JNull = []"
| "scalarToString (JBool b) = (if b then ''true'' else ''false'')"
| "scalarToString (JNum n) = showInt n"
| "scalarToString (JStr s) = s"

fun valueToString :: "rawkey \<Rightarrow> string" where
  "valueToString (Composite vs) = joinWith '' '' (map scalarToString vs)"
| "valueToString (Single v) = scalarToString v"

section \<open>Binary search\<close>

text \<open>
  \<open>lowerBound\<close>: the loop \<open>while (lo < hi)\<close> with \<open>mid = (lo + hi) >> 1\<close>. The comparator
  may throw (\<open>None\<close>), and then so does the search. \<open>mid\<close> is below \<open>hi\<close>, which never
  exceeds the length of the array, so \<open>arr ! mid\<close> is a stored entry.
\<close>

function lowerBoundFrom ::
  "'a list \<Rightarrow> 'a \<Rightarrow> ('a \<Rightarrow> 'a \<Rightarrow> int option) \<Rightarrow> nat \<Rightarrow> nat \<Rightarrow> nat option" where
  "lowerBoundFrom arr target cmp lo hi =
     (if lo < hi then
        (let mid = (lo + hi) div 2 in
         case cmp (arr ! mid) target of
           None \<Rightarrow> None
         | Some c \<Rightarrow> if c < 0 then lowerBoundFrom arr target cmp (mid + 1) hi
                     else lowerBoundFrom arr target cmp lo mid)
      else Some lo)"
  by pat_completeness auto
termination
  by (relation "measure (\<lambda>(arr, target, cmp, lo, hi). hi - lo)") auto

declare lowerBoundFrom.simps [simp del]

definition lowerBound :: "'a list \<Rightarrow> 'a \<Rightarrow> ('a \<Rightarrow> 'a \<Rightarrow> int option) \<Rightarrow> nat option" where
  "lowerBound arr target cmp = lowerBoundFrom arr target cmp 0 (length arr)"

section \<open>The trie of a prefix index\<close>

text \<open>
  A node holds its children, a \<open>Map\<close> from a character to a node, and a \<open>Set\<close> of ids. Both
  containers keep insertion order, so they are lists: an association list updated with
  \<open>AList.update\<close> (replace in place, or append) and \<open>AList.delete\<close>, and a list without
  repetition.
\<close>

datatype trie = TrieNode (children: "(char \<times> trie) list") (ids: "scalar list")

definition makeTrieNode :: trie where
  "makeTrieNode = TrieNode [] []"

definition setAdd :: "'a \<Rightarrow> 'a list \<Rightarrow> 'a list" where
  "setAdd x xs = (if x \<in> set xs then xs else xs @ [x])"

definition setDelete :: "'a \<Rightarrow> 'a list \<Rightarrow> 'a list" where
  "setDelete x xs = removeAll x xs"

text \<open>
  \<open>trieInsert\<close> walks down the characters of the string, creates the child that is
  missing, and adds the id to every node it enters; the root is never entered.
\<close>

fun trieInsert :: "trie \<Rightarrow> string \<Rightarrow> scalar \<Rightarrow> trie" where
  "trieInsert node [] i = node"
| "trieInsert node (ch # rest) i =
     (let child = (case map_of (children node) ch of None \<Rightarrow> makeTrieNode | Some n \<Rightarrow> n);
          entered = TrieNode (children child) (setAdd i (ids child))
      in TrieNode (AList.update ch (trieInsert entered rest i) (children node)) (ids node))"

fun trieFindNode :: "trie \<Rightarrow> string \<Rightarrow> trie option" where
  "trieFindNode node [] = Some node"
| "trieFindNode node (ch # rest) =
     (case map_of (children node) ch of None \<Rightarrow> None | Some n \<Rightarrow> trieFindNode n rest)"


text \<open>
  \<open>trieRemove\<close> first walks the whole path and gives up, changing nothing, when a
  character is missing (\<open>None\<close> below). Then it goes back from the deepest node to the
  root: it deletes the id from the node and, when the node is left with no id and no
  child, deletes the node from its parent. The recursion returns from the deeper levels
  before it treats the child of the current node, which is the order of the second loop.
\<close>

fun trieRemovePath :: "trie \<Rightarrow> string \<Rightarrow> scalar \<Rightarrow> trie option" where
  "trieRemovePath node [] i = Some node"
| "trieRemovePath node (ch # rest) i =
     (case map_of (children node) ch of
        None \<Rightarrow> None
      | Some next \<Rightarrow>
          (case trieRemovePath next rest i of
             None \<Rightarrow> None
           | Some next' \<Rightarrow>
               (let cur = TrieNode (children next') (setDelete i (ids next'))
                in if ids cur = [] \<and> children cur = []
                   then Some (TrieNode (AList.delete ch (children node)) (ids node))
                   else Some (TrieNode (AList.update ch cur (children node)) (ids node)))))"

definition trieRemove :: "trie \<Rightarrow> string \<Rightarrow> scalar \<Rightarrow> trie" where
  "trieRemove root str i = (case trieRemovePath root str i of None \<Rightarrow> root | Some r \<Rightarrow> r)"

section \<open>Index definitions and their storage\<close>

datatype error =
    DuplicateIndexName | InvalidIndexKind | MissingPrimaryKey | DuplicatePrimaryKey
  | ItemNotFound | IndexNotFound | IndexKindMismatch | UniqueConstraintViolation
  | NonSerializableKeySpec | TypeError

text \<open>An entry \<open>{value, id}\<close> of the sorted array of a range index.\<close>

record entry =
  evalue :: rawkey
  eid :: scalar

text \<open>
  What the map of an equality index holds under a canonical key: the id itself when the
  index is unique, a \<open>Set\<close> of ids when it is not.
\<close>

datatype eqval = OneId scalar | IdSet "scalar list"

text \<open>
  The object \<open>def\<close> built by \<open>defineIndex\<close>. Every definition carries the three storages,
  whatever its kind. \<open>keyGetter\<close> is \<open>makeKeyGetter(keySpec)\<close> and is computed where it is
  used. The map of the equality storage is keyed by the result of \<open>canonicalKey\<close>.
\<close>

record index =
  name :: string
  keySpec :: keyspec
  unique :: bool
  kind :: string
  compare :: "scalar \<Rightarrow> scalar \<Rightarrow> int"
  eq_map :: "string option \<Rightarrow> eqval option"
  range_arr :: "entry list"
  prefix_root :: trie

text \<open>Truthiness of a scalar, for \<open>x || y\<close> and \<open>if (x)\<close>.\<close>

fun truthy :: "scalar \<Rightarrow> bool" where
  "truthy JUndef = False"
| "truthy JNull = False"
| "truthy (JBool b) = b"
| "truthy (JNum n) = (n \<noteq> 0)"
| "truthy (JStr s) = (s \<noteq> [])"

text \<open>
  The comparator both \<open>addToIndex\<close> and \<open>removeFromIndex\<close> hand to the binary search:
  the composite comparison of the values and, when that is 0, \<open>defaultCompare\<close> of the ids.
\<close>

definition entryCompare :: "(scalar \<Rightarrow> scalar \<Rightarrow> int) \<Rightarrow> entry \<Rightarrow> entry \<Rightarrow> int option" where
  "entryCompare cmp a b =
     (case compositeCompare cmp (evalue a) (evalue b) of
        None \<Rightarrow> None
      | Some c \<Rightarrow> Some (if c \<noteq> 0 then c else defaultCompare (eid a) (eid b)))"

text \<open>\<open>arr.splice(pos, 0, node)\<close> and \<open>arr.splice(pos, 1)\<close>.\<close>

definition spliceIn :: "nat \<Rightarrow> 'a \<Rightarrow> 'a list \<Rightarrow> 'a list" where
  "spliceIn pos x arr = take pos arr @ [x] @ drop pos arr"

definition spliceOut :: "nat \<Rightarrow> 'a list \<Rightarrow> 'a list" where
  "spliceOut pos arr = take pos arr @ drop (Suc pos) arr"

text \<open>
  \<open>addToIndex\<close>. A throw leaves the index as it was: the uniqueness check and the binary
  search both come before the storage is touched. Under a non-unique index the map is
  read with \<open>get(keyStr) || new Set()\<close>.
\<close>

definition addToIndex :: "string \<Rightarrow> index \<Rightarrow> obj \<Rightarrow> error + index" where
  "addToIndex pk idx ob =
     (let i = getProp ob pk; raw = makeKeyGetter (keySpec idx) ob in
      if kind idx = ''eq'' then
        (let keyStr = canonicalKey raw in
         if unique idx then
           (if eq_map idx keyStr \<noteq> None then Inl UniqueConstraintViolation
            else Inr (idx\<lparr>eq_map := (eq_map idx)(keyStr \<mapsto> OneId i)\<rparr>))
         else
           (case eq_map idx keyStr of
              None \<Rightarrow> Inr (idx\<lparr>eq_map := (eq_map idx)(keyStr \<mapsto> IdSet (setAdd i []))\<rparr>)
            | Some (IdSet s) \<Rightarrow> Inr (idx\<lparr>eq_map := (eq_map idx)(keyStr \<mapsto> IdSet (setAdd i s))\<rparr>)
            | Some (OneId j) \<Rightarrow>
                if truthy j then Inl TypeError
                else Inr (idx\<lparr>eq_map := (eq_map idx)(keyStr \<mapsto> IdSet (setAdd i []))\<rparr>)))
      else if kind idx = ''range'' then
        (let node = \<lparr>evalue = normalizeComposite raw, eid = i\<rparr> in
         case lowerBound (range_arr idx) node (entryCompare (compare idx)) of
           None \<Rightarrow> Inl TypeError
         | Some pos \<Rightarrow> Inr (idx\<lparr>range_arr := spliceIn pos node (range_arr idx)\<rparr>))
      else if kind idx = ''prefix'' then
        Inr (idx\<lparr>prefix_root := trieInsert (prefix_root idx) (valueToString raw) i\<rparr>)
      else Inr idx)"

text \<open>
  The forward scan of \<open>removeFromIndex\<close> through the run of entries whose value compares
  equal, from position \<open>pos\<close>: the position of the entry with the id, if the run has it.
\<close>

fun findInRun ::
  "(scalar \<Rightarrow> scalar \<Rightarrow> int) \<Rightarrow> entry list \<Rightarrow> rawkey \<Rightarrow> scalar \<Rightarrow> nat \<Rightarrow> error + nat option" where
  "findInRun cmp [] v i pos = Inr None"
| "findInRun cmp (e # es) v i pos =
     (case compositeCompare cmp (evalue e) v of
        None \<Rightarrow> Inl TypeError
      | Some c \<Rightarrow>
          if c = 0 then (if eid e = i then Inr (Some pos) else findInRun cmp es v i (Suc pos))
          else Inr None)"

text \<open>The fallback: a scan of the whole array for the id with an equal value.\<close>

fun findLinear ::
  "(scalar \<Rightarrow> scalar \<Rightarrow> int) \<Rightarrow> entry list \<Rightarrow> rawkey \<Rightarrow> scalar \<Rightarrow> nat \<Rightarrow> error + nat option" where
  "findLinear cmp [] v i pos = Inr None"
| "findLinear cmp (e # es) v i pos =
     (if eid e = i then
        (case compositeCompare cmp (evalue e) v of
           None \<Rightarrow> Inl TypeError
         | Some c \<Rightarrow> if c = 0 then Inr (Some pos) else findLinear cmp es v i (Suc pos))
      else findLinear cmp es v i (Suc pos))"

definition removeFromIndex :: "string \<Rightarrow> index \<Rightarrow> obj \<Rightarrow> error + index" where
  "removeFromIndex pk idx ob =
     (let i = getProp ob pk; raw = makeKeyGetter (keySpec idx) ob in
      if kind idx = ''eq'' then
        (let keyStr = canonicalKey raw in
         if unique idx then
           (if (case eq_map idx keyStr of
                  None \<Rightarrow> i = JUndef | Some (OneId j) \<Rightarrow> j = i | Some (IdSet s) \<Rightarrow> False)
            then Inr (idx\<lparr>eq_map := (eq_map idx)(keyStr := None)\<rparr>)
            else Inr idx)
         else
           (case eq_map idx keyStr of
              None \<Rightarrow> Inr idx
            | Some (IdSet s) \<Rightarrow>
                (let s' = setDelete i s in
                 if s' = [] then Inr (idx\<lparr>eq_map := (eq_map idx)(keyStr := None)\<rparr>)
                 else Inr (idx\<lparr>eq_map := (eq_map idx)(keyStr \<mapsto> IdSet s')\<rparr>))
            | Some (OneId j) \<Rightarrow> if truthy j then Inl TypeError else Inr idx))
      else if kind idx = ''range'' then
        (let v = normalizeComposite raw; arr = range_arr idx in
         case lowerBound arr \<lparr>evalue = v, eid = i\<rparr> (entryCompare (compare idx)) of
           None \<Rightarrow> Inl TypeError
         | Some pos \<Rightarrow>
             (case findInRun (compare idx) (drop pos arr) v i pos of
                Inl e \<Rightarrow> Inl e
              | Inr (Some p) \<Rightarrow> Inr (idx\<lparr>range_arr := spliceOut p arr\<rparr>)
              | Inr None \<Rightarrow>
                  (case findLinear (compare idx) arr v i 0 of
                     Inl e \<Rightarrow> Inl e
                   | Inr (Some p) \<Rightarrow> Inr (idx\<lparr>range_arr := spliceOut p arr\<rparr>)
                   | Inr None \<Rightarrow> Inr idx)))
      else if kind idx = ''prefix'' then
        Inr (idx\<lparr>prefix_root := trieRemove (prefix_root idx) (valueToString raw) i\<rparr>)
      else Inr idx)"

text \<open>
  The loops \<open>for (const idx of this.indexes.values())\<close> over the definitions, in the order
  in which they were defined. A throw ends the loop: the definitions visited before keep
  their change, the others are untouched.
\<close>

fun addToAll :: "string \<Rightarrow> (string \<times> index) list \<Rightarrow> obj \<Rightarrow> error option \<times> (string \<times> index) list" where
  "addToAll pk [] ob = (None, [])"
| "addToAll pk ((n, idx) # rest) ob =
     (case addToIndex pk idx ob of
        Inl e \<Rightarrow> (Some e, (n, idx) # rest)
      | Inr idx' \<Rightarrow> (case addToAll pk rest ob of (r, rest') \<Rightarrow> (r, (n, idx') # rest')))"

fun removeFromAll :: "string \<Rightarrow> (string \<times> index) list \<Rightarrow> obj \<Rightarrow> error option \<times> (string \<times> index) list" where
  "removeFromAll pk [] ob = (None, [])"
| "removeFromAll pk ((n, idx) # rest) ob =
     (case removeFromIndex pk idx ob of
        Inl e \<Rightarrow> (Some e, (n, idx) # rest)
      | Inr idx' \<Rightarrow> (case removeFromAll pk rest ob of (r, rest') \<Rightarrow> (r, (n, idx') # rest')))"

text \<open>The back-fill loop of \<open>defineIndex\<close> over the stored objects.\<close>

fun backfill :: "string \<Rightarrow> index \<Rightarrow> obj list \<Rightarrow> error option \<times> index" where
  "backfill pk idx [] = (None, idx)"
| "backfill pk idx (ob # obs) =
     (case addToIndex pk idx ob of
        Inl e \<Rightarrow> (Some e, idx)
      | Inr idx' \<Rightarrow> backfill pk idx' obs)"

section \<open>The collection\<close>

text \<open>
  The serialized form. \<open>serialize\<close> returns the JSON text of a payload and \<open>deserialize\<close>
  parses it; the text is represented by the value it parses to, so the payload below is
  the payload after one trip through \<open>JSON.stringify\<close> and \<open>JSON.parse\<close> (see
  \<open>jsonObj\<close>). A comparator is not part of it.
\<close>

datatype serializedKeySpec = SFn | SArr "string list" | SStr string

record serializedIndexDef =
  s_name :: string
  s_kind :: string
  s_unique :: bool
  s_keySpec :: serializedKeySpec

record serializedData =
  sd_primaryKey :: string
  sd_indexDefs :: "serializedIndexDef list"
  sd_items :: "obj list"

text \<open>
  The state of a \<open>Querium\<close> instance. \<open>items\<close> and \<open>indexes\<close> are \<open>Map\<close>s, which iterate in
  insertion order: association lists, written with \<open>AList.update\<close> (\<open>set\<close>) and
  \<open>AList.delete\<close> (\<open>delete\<close>).
\<close>

record querium =
  primaryKey :: string
  items :: "(scalar \<times> obj) list"
  indexes :: "(string \<times> index) list"
  snapshots :: "serializedData list"

definition newQuerium :: "string \<Rightarrow> querium" where
  "newQuerium key = \<lparr>primaryKey = key, items = [], indexes = [], snapshots = []\<rparr>"

definition mapHas :: "('k \<times> 'v) list \<Rightarrow> 'k \<Rightarrow> bool" where
  "mapHas m k = (map_of m k \<noteq> None)"

text \<open>The argument \<open>definition\<close> of \<open>defineIndex\<close>; \<open>unique\<close>, \<open>kind\<close> and \<open>compare\<close> may be left out.\<close>

record indexDefinition =
  d_name :: string
  d_key :: keyspec
  d_unique :: "bool option"
  d_kind :: "string option"
  d_compare :: "(scalar \<Rightarrow> scalar \<Rightarrow> int) option"

definition defineIndex :: "querium \<Rightarrow> indexDefinition \<Rightarrow> (error + unit) \<times> querium" where
  "defineIndex c d =
     (let nm = d_name d;
          uniq = (case d_unique d of None \<Rightarrow> False | Some u \<Rightarrow> u);
          knd = (case d_kind d of None \<Rightarrow> ''eq'' | Some k \<Rightarrow> k)
      in if mapHas (indexes c) nm then (Inl DuplicateIndexName, c)
         else if knd \<notin> set [''eq'', ''range'', ''prefix''] then (Inl InvalidIndexKind, c)
         else
           (let def = \<lparr>name = nm, keySpec = d_key d, unique = uniq, kind = knd,
                       compare = (case d_compare d of None \<Rightarrow> defaultCompare | Some f \<Rightarrow> f),
                       eq_map = Map.empty, range_arr = [], prefix_root = makeTrieNode\<rparr>
            in case backfill (primaryKey c) def (map snd (items c)) of
                 (r, def') \<Rightarrow>
                   ((case r of None \<Rightarrow> Inr () | Some e \<Rightarrow> Inl e),
                    c\<lparr>indexes := AList.update nm def' (indexes c)\<rparr>)))"

text \<open>
  \<open>insert\<close> (\<open>insert_q\<close> here, as \<open>size_q\<close> is \<open>size\<close>). The two checks come first; then the object is stored and indexed, and a throw
  of \<open>addToIndex\<close> leaves the object stored and the earlier definitions updated.
\<close>

definition insert_q :: "querium \<Rightarrow> obj \<Rightarrow> (error + scalar) \<times> querium" where
  "insert_q c ob =
     (let i = getProp ob (primaryKey c) in
      if nullish i then (Inl MissingPrimaryKey, c)
      else if mapHas (items c) i then (Inl DuplicatePrimaryKey, c)
      else
        (let c1 = c\<lparr>items := AList.update i ob (items c)\<rparr> in
         case addToAll (primaryKey c1) (indexes c1) ob of
           (r, ixs) \<Rightarrow>
             ((case r of None \<Rightarrow> Inr i | Some e \<Rightarrow> Inl e), c1\<lparr>indexes := ixs\<rparr>)))"

text \<open>
  The second argument of \<open>update\<close>: a plain object (\<open>isPlainObject\<close> holds) is a patch,
  any other object with fields replaces the record.
\<close>

datatype updArg = Plain obj | NonPlain obj

fun isPlainObject :: "updArg \<Rightarrow> bool" where
  "isPlainObject (Plain p) = True"
| "isPlainObject (NonPlain p) = False"

fun argFields :: "updArg \<Rightarrow> obj" where
  "argFields (Plain p) = p"
| "argFields (NonPlain p) = p"

text \<open>The object spread \<open>{ ...prev, ...patch }\<close>: the fields of the patch, written in turn.\<close>

definition spread :: "obj \<Rightarrow> obj \<Rightarrow> obj" where
  "spread prev patch = foldl (\<lambda>acc (k, v). AList.update k v acc) prev patch"

definition update :: "querium \<Rightarrow> scalar \<Rightarrow> updArg \<Rightarrow> (error + obj) \<times> querium" where
  "update c i arg =
     (case map_of (items c) i of
        None \<Rightarrow> (Inl ItemNotFound, c)
      | Some prev \<Rightarrow>
          (let next = (if isPlainObject arg
                       then AList.update (primaryKey c) i (spread prev (argFields arg))
                       else argFields arg)
           in case removeFromAll (primaryKey c) (indexes c) prev of
                (Some e, ixs) \<Rightarrow> (Inl e, c\<lparr>indexes := ixs\<rparr>)
              | (None, ixs) \<Rightarrow>
                  (let c1 = c\<lparr>indexes := ixs, items := AList.update i next (items c)\<rparr> in
                   case addToAll (primaryKey c1) (indexes c1) next of
                     (r, ixs') \<Rightarrow>
                       ((case r of None \<Rightarrow> Inr next | Some e \<Rightarrow> Inl e),
                        c1\<lparr>indexes := ixs'\<rparr>))))"

definition upsert :: "querium \<Rightarrow> updArg \<Rightarrow> (error + scalar) \<times> querium" where
  "upsert c arg =
     (let i = getProp (argFields arg) (primaryKey c) in
      if nullish i then (Inl MissingPrimaryKey, c)
      else if mapHas (items c) i then
        (case update c i arg of
           (Inl e, c') \<Rightarrow> (Inl e, c')
         | (Inr _, c') \<Rightarrow> (Inr i, c'))
      else insert_q c (argFields arg))"

definition remove :: "querium \<Rightarrow> scalar \<Rightarrow> (error + bool) \<times> querium" where
  "remove c i =
     (case map_of (items c) i of
        None \<Rightarrow> (Inr False, c)
      | Some ob \<Rightarrow>
          (case removeFromAll (primaryKey c) (indexes c) ob of
             (Some e, ixs) \<Rightarrow> (Inl e, c\<lparr>indexes := ixs\<rparr>)
           | (None, ixs) \<Rightarrow> (Inr True, c\<lparr>indexes := ixs, items := AList.delete i (items c)\<rparr>)))"



definition hasIndex :: "querium \<Rightarrow> string \<Rightarrow> bool" where
  "hasIndex c nm = mapHas (indexes c) nm"

definition requireIndex :: "querium \<Rightarrow> string \<Rightarrow> string \<Rightarrow> error + index" where
  "requireIndex c nm expectedKind =
     (case map_of (indexes c) nm of
        None \<Rightarrow> Inl IndexNotFound
      | Some idx \<Rightarrow>
          if expectedKind \<noteq> [] \<and> kind idx \<noteq> expectedKind then Inl IndexKindMismatch
          else Inr idx)"

section \<open>Queries\<close>

text \<open>
  A query returns the stored objects it finds with \<open>this.items.get(id)\<close>; an id without
  an object gives \<open>undefined\<close>, which is \<open>None\<close> in the lists below.
\<close>

definition getOne :: "querium \<Rightarrow> string \<Rightarrow> rawkey \<Rightarrow> error + obj option" where
  "getOne c indexName v =
     (case requireIndex c indexName ''eq'' of
        Inl e \<Rightarrow> Inl e
      | Inr idx \<Rightarrow>
          (let k = canonicalKey v in
           if unique idx then
             (case eq_map idx k of
                None \<Rightarrow> Inr None
              | Some (OneId i) \<Rightarrow> if nullish i then Inr None else Inr (map_of (items c) i)
              | Some (IdSet s) \<Rightarrow> Inr None)
           else
             (case eq_map idx k of
                None \<Rightarrow> Inr None
              | Some (IdSet s) \<Rightarrow> (case s of [] \<Rightarrow> Inr None | firstId # _ \<Rightarrow> Inr (map_of (items c) firstId))
              | Some (OneId i) \<Rightarrow> if truthy i then Inl TypeError else Inr None)))"

text \<open>
  \<open>getAll\<close>; without an index name (or with an empty one) it returns every stored object.
  \<open>Array.from\<close> of a value that is not a set occurs only where a non-unique index holds a
  bare id: a string is iterated by its characters, and a number or boolean gives nothing.
\<close>

definition getAll :: "querium \<Rightarrow> string option \<Rightarrow> rawkey \<Rightarrow> error + obj option list" where
  "getAll c indexName v =
     (case indexName of
        None \<Rightarrow> Inr (map (\<lambda>(i, ob). Some ob) (items c))
      | Some nm \<Rightarrow>
          if nm = [] then Inr (map (\<lambda>(i, ob). Some ob) (items c))
          else
            (case requireIndex c nm ''eq'' of
               Inl e \<Rightarrow> Inl e
             | Inr idx \<Rightarrow>
                 (let k = canonicalKey v in
                  if unique idx then
                    (case eq_map idx k of
                       None \<Rightarrow> Inr []
                     | Some (OneId i) \<Rightarrow> if nullish i then Inr [] else Inr [map_of (items c) i]
                     | Some (IdSet s) \<Rightarrow> Inr [None])
                  else
                    (case eq_map idx k of
                       None \<Rightarrow> Inr []
                     | Some (IdSet s) \<Rightarrow> Inr (map (\<lambda>i. map_of (items c) i) s)
                     | Some (OneId i) \<Rightarrow>
                         (if \<not> truthy i then Inr []
                          else case i of
                                 JStr t \<Rightarrow> Inr (map (\<lambda>ch. map_of (items c) (JStr [ch])) t)
                               | _ \<Rightarrow> Inr [])))))"






section \<open>Persistence, snapshot and rollback\<close>

fun serializeKeySpec :: "keyspec \<Rightarrow> serializedKeySpec" where
  "serializeKeySpec (KFn f) = SFn"
| "serializeKeySpec (KArr ks) = SArr ks"
| "serializeKeySpec (KStr k) = SStr k"

fun deserializeKeySpec :: "serializedKeySpec \<Rightarrow> error + keyspec" where
  "deserializeKeySpec SFn = Inl NonSerializableKeySpec"
| "deserializeKeySpec (SArr ks) = Inr (KArr ks)"
| "deserializeKeySpec (SStr k) = Inr (KStr k)"

text \<open>
  What \<open>JSON.parse(JSON.stringify(ob))\<close> returns for a stored object: a field whose value
  is \<open>undefined\<close> is not written, every other field comes back as it was.
\<close>

definition jsonObj :: "obj \<Rightarrow> obj" where
  "jsonObj ob = filter (\<lambda>(k, v). v \<noteq> JUndef) ob"

definition serialize :: "querium \<Rightarrow> serializedData" where
  "serialize c =
     \<lparr>sd_primaryKey = primaryKey c,
      sd_indexDefs = map (\<lambda>(n, idx). \<lparr>s_name = name idx, s_kind = kind idx, s_unique = unique idx,
                                     s_keySpec = serializeKeySpec (keySpec idx)\<rparr>) (indexes c),
      sd_items = map (\<lambda>(i, ob). jsonObj ob) (items c)\<rparr>"

text \<open>The two loops of \<open>deserialize\<close>; the first throw ends the call.\<close>

fun defineAll :: "querium \<Rightarrow> serializedIndexDef list \<Rightarrow> error + querium" where
  "defineAll c [] = Inr c"
| "defineAll c (d # ds) =
     (case deserializeKeySpec (s_keySpec d) of
        Inl e \<Rightarrow> Inl e
      | Inr k \<Rightarrow>
          (case defineIndex c \<lparr>d_name = s_name d, d_key = k, d_unique = Some (s_unique d),
                               d_kind = Some (s_kind d), d_compare = None\<rparr> of
             (Inl e, c') \<Rightarrow> Inl e
           | (Inr u, c') \<Rightarrow> defineAll c' ds))"

fun insertAll :: "querium \<Rightarrow> obj list \<Rightarrow> error + querium" where
  "insertAll c [] = Inr c"
| "insertAll c (ob # obs) =
     (case insert_q c ob of
        (Inl e, c') \<Rightarrow> Inl e
      | (Inr i, c') \<Rightarrow> insertAll c' obs)"

definition deserialize :: "serializedData \<Rightarrow> error + querium" where
  "deserialize data =
     (case defineAll (newQuerium (sd_primaryKey data)) (sd_indexDefs data) of
        Inl e \<Rightarrow> Inl e
      | Inr coll \<Rightarrow> insertAll coll (sd_items data))"

definition snapshot :: "querium \<Rightarrow> serializedData \<times> querium" where
  "snapshot c = (let snap = serialize c in (snap, c\<lparr>snapshots := snapshots c @ [snap]\<rparr>))"

text \<open>
  \<open>rollback\<close> pops the last snapshot before it rebuilds; when \<open>deserialize\<close> throws, the
  snapshot is gone and the rest of the collection is as it was.
\<close>

definition rollback :: "querium \<Rightarrow> (error + bool) \<times> querium" where
  "rollback c =
     (if snapshots c = [] then (Inr False, c)
      else
        (let snap = last (snapshots c);
             c1 = c\<lparr>snapshots := butlast (snapshots c)\<rparr>
         in case deserialize snap of
              Inl e \<Rightarrow> (Inl e, c1)
            | Inr restored \<Rightarrow>
                (Inr True, c1\<lparr>primaryKey := primaryKey restored, items := items restored,
                               indexes := indexes restored\<rparr>)))"

section \<open>Example data\<close>

text \<open>
  The records and index definitions of the repository's basic example: users with an
  \<open>id\<close>, an \<open>email\<close> and an \<open>age\<close>, a unique equality index on the e-mail address.
\<close>

definition alice :: obj where
  "alice = [(''id'', JNum 1), (''email'', JStr ''a@x.com''), (''age'', JNum 24)]"

definition emailIndex :: index where
  "emailIndex = \<lparr>name = ''byEmail'', keySpec = KStr ''email'', unique = True, kind = ''eq'',
     compare = defaultCompare, eq_map = Map.empty, range_arr = [], prefix_root = makeTrieNode\<rparr>"

text \<open>The index after \<open>alice\<close> has been added to it.\<close>

definition emailIndex1 :: index where
  "emailIndex1 = emailIndex\<lparr>eq_map := [canonicalKey (Single (JStr ''a@x.com'')) \<mapsto> OneId (JNum 1)]\<rparr>"

definition aliceOnly :: querium where
  "aliceOnly = \<lparr>primaryKey = ''id'', items = [(JNum 1, alice)],
                indexes = [(''byEmail'', emailIndex1)], snapshots = []\<rparr>"

section \<open>Sequences of operations\<close>

text \<open>
  A caller's history: the mutating operations of the public surface, applied one after
  the other. An operation that throws leaves the state it had reached, and the caller
  goes on from there.
\<close>

datatype operation =
    Define indexDefinition
  | Insert obj
  | Upsert updArg
  | Update scalar updArg
  | Remove scalar
  | Snapshot
  | Rollback

fun step :: "querium \<Rightarrow> operation \<Rightarrow> querium" where
  "step c (Define d) = snd (defineIndex c d)"
| "step c (Insert ob) = snd (insert_q c ob)"
| "step c (Upsert arg) = snd (upsert c arg)"
| "step c (Update i arg) = snd (update c i arg)"
| "step c (Remove i) = snd (remove c i)"
| "step c Snapshot = snd (snapshot c)"
| "step c Rollback = snd (rollback c)"

definition run :: "querium \<Rightarrow> operation list \<Rightarrow> querium" where
  "run c ops = foldl step c ops"

text \<open>
  The condition of a trie that pruning maintains: every node that a non-empty path
  reaches from the root holds an id or has a child.
\<close>

definition pruned :: "trie \<Rightarrow> bool" where
  "pruned root \<longleftrightarrow>
     (\<forall>p n. p \<noteq> [] \<longrightarrow> trieFindNode root p = Some n \<longrightarrow> ids n \<noteq> [] \<or> children n \<noteq> [])"

definition allPruned :: "(string \<times> index) list \<Rightarrow> bool" where
  "allPruned ixs \<longleftrightarrow> (\<forall>(n, idx) \<in> set ixs. pruned (prefix_root idx))"

text \<open>
  A prefix index on \<open>name\<close>, two records that share the prefix \<open>fi\<close>, and the removal of
  the first; \<open>pruneIdx\<close> is the index definition this history ends with.
\<close>

definition nameIndexDef :: indexDefinition where
  "nameIndexDef = \<lparr>d_name = ''byName'', d_key = KStr ''name'', d_unique = None,
                    d_kind = Some ''prefix'', d_compare = None\<rparr>"

definition pruneOps :: "operation list" where
  "pruneOps = [Define nameIndexDef,
               Insert [(''id'', JNum 1), (''name'', JStr ''fir'')],
               Insert [(''id'', JNum 2), (''name'', JStr ''fid'')],
               Remove (JNum 1)]"

definition pruneIdx :: index where
  "pruneIdx = \<lparr>name = ''byName'', keySpec = KStr ''name'', unique = False, kind = ''prefix'',
     compare = defaultCompare, eq_map = Map.empty, range_arr = [],
     prefix_root =
       TrieNode [(CHR ''f'', TrieNode [(CHR ''i'', TrieNode [(CHR ''d'', TrieNode [] [JNum 2])]
                                                      [JNum 2])] [JNum 2])] []\<rparr>"

section \<open>The order of a range index\<close>







text \<open>
  The collection of the basic example: the unique equality index on \<open>email\<close>, a range
  index on \<open>age\<close>, and three users. \<open>ageIdx\<close> is the range index it ends with.
\<close>

definition bob :: obj where
  "bob = [(''id'', JNum 2), (''email'', JStr ''b@x.com''), (''age'', JNum 31)]"







section \<open>Shape of canonical keys\<close>




section \<open>Histories of successful operations\<close>

text \<open>
  One operation that returns normally. An update that replaces the record wholesale is
  admitted when the replacement carries the id it is stored under (\<open>update\<close> forces the
  primary key back only on a plain mapping).
\<close>

fun stepOk :: "querium \<Rightarrow> operation \<Rightarrow> querium option" where
  "stepOk c (Define d) = (case defineIndex c d of (Inr u, c') \<Rightarrow> Some c' | (Inl e, c') \<Rightarrow> None)"
| "stepOk c (Insert ob) = (case insert_q c ob of (Inr i, c') \<Rightarrow> Some c' | (Inl e, c') \<Rightarrow> None)"
| "stepOk c (Upsert arg) = (case upsert c arg of (Inr i, c') \<Rightarrow> Some c' | (Inl e, c') \<Rightarrow> None)"
| "stepOk c (Update i arg) =
     (if isPlainObject arg \<or> getProp (argFields arg) (primaryKey c) = i
      then (case update c i arg of (Inr ob, c') \<Rightarrow> Some c' | (Inl e, c') \<Rightarrow> None)
      else None)"
| "stepOk c (Remove i) = (case remove c i of (Inr b, c') \<Rightarrow> Some c' | (Inl e, c') \<Rightarrow> None)"
| "stepOk c Snapshot = Some (snd (snapshot c))"
| "stepOk c Rollback = (case rollback c of (Inr b, c') \<Rightarrow> Some c' | (Inl e, c') \<Rightarrow> None)"

fun runOk :: "querium \<Rightarrow> operation list \<Rightarrow> querium option" where
  "runOk c [] = Some c"
| "runOk c (x # xs) = (case stepOk c x of None \<Rightarrow> None | Some c' \<Rightarrow> runOk c' xs)"

text \<open>The stored objects, and what an index definition derives from one of them.\<close>

definition stored :: "querium \<Rightarrow> obj set" where
  "stored c = snd ` set (items c)"

definition keyOf :: "index \<Rightarrow> obj \<Rightarrow> rawkey" where
  "keyOf idx ob = makeKeyGetter (keySpec idx) ob"

definition keyString :: "index \<Rightarrow> obj \<Rightarrow> string" where
  "keyString idx ob = valueToString (keyOf idx ob)"

text \<open>The ids a trie holds at the end of a path: none when the path does not exist.\<close>

definition idsAt :: "trie \<Rightarrow> string \<Rightarrow> scalar list" where
  "idsAt root p = (case trieFindNode root p of None \<Rightarrow> [] | Some n \<Rightarrow> ids n)"

text \<open>
  A trie agrees with a set of objects: at the end of every non-empty path it holds
  the ids of exactly the objects whose key string starts with the path, each once.
\<close>

definition prefixInv :: "string \<Rightarrow> index \<Rightarrow> obj set \<Rightarrow> bool" where
  "prefixInv pk idx S \<longleftrightarrow>
     (kind idx = ''prefix'' \<longrightarrow>
        (\<forall>p. p \<noteq> [] \<longrightarrow>
           distinct (idsAt (prefix_root idx) p) \<and>
           set (idsAt (prefix_root idx) p)
             = {getProp ob pk | ob. ob \<in> S \<and> prefix p (keyString idx ob)}))"

text \<open>
  The records are stored under distinct ids and each under the id it carries.
\<close>

definition keyed :: "querium \<Rightarrow> bool" where
  "keyed c \<longleftrightarrow>
     distinct (map fst (items c)) \<and>
     (\<forall>(i, ob) \<in> set (items c). getProp ob (primaryKey c) = i)"

section \<open>Invariants of index storage\<close>

text \<open>Two states of one index definition: everything but the storage is the same.\<close>

definition sameDef :: "index \<Rightarrow> index \<Rightarrow> bool" where
  "sameDef idx idx' \<longleftrightarrow>
     name idx' = name idx \<and> keySpec idx' = keySpec idx \<and> unique idx' = unique idx \<and>
     kind idx' = kind idx \<and> compare idx' = compare idx"

text \<open>
  A storage invariant \<open>J\<close> (of the primary key, an index definition and the set of stored
  objects) is maintained under a side condition \<open>Q\<close> on the data when: adding an object
  with a fresh id keeps it, provided \<open>Q\<close> holds with the object; removing a stored object
  keeps it, provided \<open>Q\<close> holds before; a new definition has it for no objects; and \<open>Q\<close>
  looks at the definition only, passes to subsets and holds of no objects.
\<close>

definition maintained ::
  "(string \<Rightarrow> index \<Rightarrow> obj set \<Rightarrow> bool) \<Rightarrow> (string \<Rightarrow> index \<Rightarrow> obj set \<Rightarrow> bool) \<Rightarrow> bool" where
  "maintained J Q \<longleftrightarrow>
     (\<forall>pk idx idx' S ob.
        J pk idx S \<longrightarrow> Q pk idx (Set.insert ob S) \<longrightarrow>
        getProp ob pk \<notin> (\<lambda>ob'. getProp ob' pk) ` S \<longrightarrow>
        addToIndex pk idx ob = Inr idx' \<longrightarrow> J pk idx' (Set.insert ob S)) \<and>
     (\<forall>pk idx idx' S ob.
        J pk idx S \<longrightarrow> Q pk idx S \<longrightarrow> ob \<in> S \<longrightarrow> inj_on (\<lambda>ob'. getProp ob' pk) S \<longrightarrow>
        removeFromIndex pk idx ob = Inr idx' \<longrightarrow> J pk idx' (S - {ob})) \<and>
     (\<forall>pk nm ks u k cmp.
        J pk \<lparr>name = nm, keySpec = ks, unique = u, kind = k, compare = cmp,
              eq_map = Map.empty, range_arr = [], prefix_root = makeTrieNode\<rparr> {}) \<and>
     (\<forall>pk idx idx' S. sameDef idx idx' \<longrightarrow> Q pk idx' S = Q pk idx S) \<and>
     (\<forall>pk idx S T. T \<subseteq> S \<longrightarrow> Q pk idx S \<longrightarrow> Q pk idx T) \<and>
     (\<forall>pk idx. Q pk idx {})"


definition sideOk :: "(string \<Rightarrow> index \<Rightarrow> obj set \<Rightarrow> bool) \<Rightarrow> querium \<Rightarrow> bool" where
  "sideOk Q c \<longleftrightarrow> (\<forall>(n, idx) \<in> set (indexes c). Q (primaryKey c) idx (stored c))"







section \<open>The order of the entries\<close>

text \<open>
  A comparison that may throw orders a set: any two members are compared without a throw
  and with opposite signs in the two directions, and "at most" is transitive.
\<close>

definition leqBy :: "('a \<Rightarrow> 'a \<Rightarrow> int option) \<Rightarrow> 'a \<Rightarrow> 'a \<Rightarrow> bool" where
  "leqBy f a b = (case f a b of None \<Rightarrow> False | Some c \<Rightarrow> c \<le> 0)"

definition lessBy :: "('a \<Rightarrow> 'a \<Rightarrow> int option) \<Rightarrow> 'a \<Rightarrow> 'a \<Rightarrow> bool" where
  "lessBy f a b = (case f a b of None \<Rightarrow> False | Some c \<Rightarrow> c < 0)"

definition ordersSet :: "('a \<Rightarrow> 'a \<Rightarrow> int option) \<Rightarrow> 'a set \<Rightarrow> bool" where
  "ordersSet f E \<longleftrightarrow>
     (\<forall>a \<in> E. \<forall>b \<in> E.
        (case (f a b, f b a) of (Some x, Some y) \<Rightarrow> sgn x = - sgn y | _ \<Rightarrow> False)) \<and>
     (\<forall>a \<in> E. \<forall>b \<in> E. \<forall>c \<in> E. leqBy f a b \<longrightarrow> leqBy f b c \<longrightarrow> leqBy f a c)"

text \<open>The entry \<open>{value, id}\<close> that \<open>addToIndex\<close> builds for an object.\<close>

definition entryOf :: "string \<Rightarrow> index \<Rightarrow> obj \<Rightarrow> entry" where
  "entryOf pk idx ob = \<lparr>evalue = normalizeComposite (keyOf idx ob), eid = getProp ob pk\<rparr>"

text \<open>
  The order of the array: the composite comparison with the id as the final tie-break.
\<close>

definition entryLeq :: "(scalar \<Rightarrow> scalar \<Rightarrow> int) \<Rightarrow> entry \<Rightarrow> entry \<Rightarrow> bool" where
  "entryLeq cmp a b = leqBy (entryCompare cmp) a b"

text \<open>
  The comparator of a range index orders the entries of a set of objects; the array of
  the index agrees with the set: sorted, one entry for each object, no id twice.
\<close>

definition rangeSide :: "string \<Rightarrow> index \<Rightarrow> obj set \<Rightarrow> bool" where
  "rangeSide pk idx S \<longleftrightarrow>
     (kind idx = ''range'' \<longrightarrow> ordersSet (entryCompare (compare idx)) (entryOf pk idx ` S))"

definition rangeInv :: "string \<Rightarrow> index \<Rightarrow> obj set \<Rightarrow> bool" where
  "rangeInv pk idx S \<longleftrightarrow>
     (kind idx = ''range'' \<longrightarrow>
        sorted_wrt (entryLeq (compare idx)) (range_arr idx) \<and>
        distinct (map eid (range_arr idx)) \<and>
        set (range_arr idx) = entryOf pk idx ` S)"









section \<open>The map of an equality index\<close>

text \<open>The key string under which an equality index files an object.\<close>

definition keyText :: "index \<Rightarrow> obj \<Rightarrow> string option" where
  "keyText idx ob = canonicalKey (keyOf idx ob)"

text \<open>
  The map of an equality index agrees with a set of objects. Under a unique index each
  object is filed under its key string with its id, and nothing else is in the map.
  Otherwise a key string has an entry exactly when an object has it, and the entry is
  the set of the ids of these objects.
\<close>

definition eqInv :: "string \<Rightarrow> index \<Rightarrow> obj set \<Rightarrow> bool" where
  "eqInv pk idx S \<longleftrightarrow>
     (kind idx = ''eq'' \<longrightarrow>
        (if unique idx then
           (\<forall>ob \<in> S. eq_map idx (keyText idx ob) = Some (OneId (getProp ob pk))) \<and>
           (\<forall>k. eq_map idx k \<noteq> None \<longrightarrow> k \<in> keyText idx ` S)
         else
           (\<forall>k. case eq_map idx k of
                  None \<Rightarrow> k \<notin> keyText idx ` S
                | Some (OneId j) \<Rightarrow> False
                | Some (IdSet s) \<Rightarrow>
                    s \<noteq> [] \<and> distinct s \<and>
                    set s = {getProp ob pk | ob. ob \<in> S \<and> keyText idx ob = k})))"

text \<open>The root of the trie holds no id.\<close>

definition rootInv :: "string \<Rightarrow> index \<Rightarrow> obj set \<Rightarrow> bool" where
  "rootInv pk idx S \<longleftrightarrow> ids (prefix_root idx) = []"

text \<open>The storage of an index, of whatever kind, agrees with a set of objects.\<close>

definition storageInv :: "string \<Rightarrow> index \<Rightarrow> obj set \<Rightarrow> bool" where
  "storageInv pk idx S \<longleftrightarrow>
     eqInv pk idx S \<and> rangeInv pk idx S \<and> prefixInv pk idx S \<and> rootInv pk idx S"

text \<open>
  The collection is well formed: the index definitions are filed under their own names,
  no name twice, each of one of the three kinds, and no record is stored under
  \<open>null\<close> or \<open>undefined\<close>.
\<close>

definition wellFormed :: "querium \<Rightarrow> bool" where
  "wellFormed c \<longleftrightarrow>
     distinct (map fst (indexes c)) \<and>
     (\<forall>(n, idx) \<in> set (indexes c). name idx = n \<and> kind idx \<in> set [''eq'', ''range'', ''prefix'']) \<and>
     (\<forall>(i, ob) \<in> set (items c). \<not> nullish i)"

text \<open>Two lists of index definitions with the same names and the same definitions.\<close>

definition sameDefs :: "(string \<times> index) list \<Rightarrow> (string \<times> index) list \<Rightarrow> bool" where
  "sameDefs ixs ixs' = list_all2 (\<lambda>p p'. fst p' = fst p \<and> sameDef (snd p) (snd p')) ixs ixs'"

text \<open>
  What the payload can carry: no index has an extraction function or a comparator of its
  own, and every record comes back from the text as it was.
\<close>

definition serializable :: "querium \<Rightarrow> bool" where
  "serializable c \<longleftrightarrow>
     (\<forall>(n, idx) \<in> set (indexes c).
        (case keySpec idx of KFn f \<Rightarrow> False | _ \<Rightarrow> True) \<and> compare idx = defaultCompare) \<and>
     (\<forall>(i, ob) \<in> set (items c). jsonObj ob = ob)"

text \<open>Two results with the same records, in whatever order, or the same error.\<close>

definition sameRecords :: "error + obj option list \<Rightarrow> error + obj option list \<Rightarrow> bool" where
  "sameRecords a b =
     (case a of
        Inl e \<Rightarrow> b = Inl e
      | Inr x \<Rightarrow> (case b of Inl e \<Rightarrow> False | Inr y \<Rightarrow> set x = set y \<and> length x = length y))"

text \<open>
  Two histories for the round trip: a non-unique equality index on \<open>age\<close> with two
  records of the same age, the first of them updated afterwards; and a range index on
  \<open>age\<close> whose comparator reverses the default order.
\<close>

definition eve :: obj where
  "eve = [(''id'', JNum 5), (''email'', JStr ''e@x.com''), (''age'', JNum 24)]"

definition regroupOps :: "operation list" where
  "regroupOps = [Define \<lparr>d_name = ''sameAge'', d_key = KStr ''age'', d_unique = None,
                         d_kind = None, d_compare = None\<rparr>,
                 Insert alice, Insert eve,
                 Update (JNum 1) (Plain [(''email'', JStr ''z@x.com'')])]"

definition regroupState :: querium where
  "regroupState = run (newQuerium ''id'') regroupOps"

definition descOps :: "operation list" where
  "descOps = [Define \<lparr>d_name = ''byAge'', d_key = KStr ''age'', d_unique = None,
                      d_kind = Some ''range'', d_compare = Some (\<lambda>a b. defaultCompare b a)\<rparr>,
              Insert alice, Insert bob]"

definition descState :: querium where
  "descState = run (newQuerium ''id'') descOps"

section \<open>Properties of the helpers\<close>

lemma addToIndex_error:
  "addToIndex pk idx ob = Inl e \<Longrightarrow> e = UniqueConstraintViolation \<or> e = TypeError"
  by (auto simp: addToIndex_def Let_def split: if_splits option.splits eqval.splits)

lemma addToAll_error:
  "fst (addToAll pk ixs ob) = Some e \<Longrightarrow> e = UniqueConstraintViolation \<or> e = TypeError"
proof (induction ixs)
  case Nil
  then show ?case by simp
next
  case (Cons p ixs)
  obtain n idx where p: "p = (n, idx)" by (cases p)
  show ?case
  proof (cases "addToIndex pk idx ob")
    case (Inl e')
    with Cons.prems p have "e' = e" by simp
    with Inl show ?thesis using addToIndex_error by blast
  next
    case (Inr idx')
    with Cons.prems p have "fst (addToAll pk ixs ob) = Some e"
      by (simp split: prod.splits)
    then show ?thesis by (rule Cons.IH)
  qed
qed

section \<open>Failed primary-key checks of insert\<close>

text \<open>
  C10. When \<open>insert\<close> raises MissingPrimaryKey or DuplicatePrimaryKey, the collection is
  exactly as it was before the call: the record store, every index storage and the
  snapshot stack. MissingPrimaryKey is raised when the primary-key field is \<open>null\<close> or
  absent, DuplicatePrimaryKey when the id is already stored, and both checks come before
  any change.
\<close>

theorem insert_key_failures_atomic:
  "(nullish (getProp ob (primaryKey c)) \<longrightarrow> insert_q c ob = (Inl MissingPrimaryKey, c)) \<and>
   (\<not> nullish (getProp ob (primaryKey c)) \<and> mapHas (items c) (getProp ob (primaryKey c))
      \<longrightarrow> insert_q c ob = (Inl DuplicatePrimaryKey, c)) \<and>
   (fst (insert_q c ob) = Inl MissingPrimaryKey \<or> fst (insert_q c ob) = Inl DuplicatePrimaryKey
      \<longrightarrow> snd (insert_q c ob) = c)"
proof -
  let ?i = "getProp ob (primaryKey c)"
  let ?c1 = "c\<lparr>items := AList.update ?i ob (items c)\<rparr>"
  have stored: "fst (insert_q c ob) \<noteq> Inl MissingPrimaryKey \<and> fst (insert_q c ob) \<noteq> Inl DuplicatePrimaryKey"
    if "\<not> nullish ?i" "\<not> mapHas (items c) ?i"
  proof -
    obtain r ixs where a: "addToAll (primaryKey c) (indexes c) ob = (r, ixs)"
      by (cases "addToAll (primaryKey c) (indexes c) ob")
    have res: "fst (insert_q c ob) = (case r of None \<Rightarrow> Inr ?i | Some e \<Rightarrow> Inl e)"
      using that a by (simp add: insert_q_def Let_def)
    show ?thesis
    proof (cases r)
      case None
      with res show ?thesis by simp
    next
      case (Some e)
      with a have "fst (addToAll (primaryKey c) (indexes c) ob) = Some e" by simp
      then have "e = UniqueConstraintViolation \<or> e = TypeError" by (rule addToAll_error)
      with res Some show ?thesis by auto
    qed
  qed
  show ?thesis
    using stored by (auto simp: insert_q_def Let_def)
qed

theorem insert_key_failures_atomic_witness:
  "nullish (getProp [(''age'', JNum 30)] (primaryKey aliceOnly)) \<and>
   insert_q aliceOnly [(''age'', JNum 30)] = (Inl MissingPrimaryKey, aliceOnly) \<and>
   \<not> nullish (getProp [(''id'', JNum 1), (''age'', JNum 30)] (primaryKey aliceOnly)) \<and>
   mapHas (items aliceOnly) (getProp [(''id'', JNum 1), (''age'', JNum 30)] (primaryKey aliceOnly)) \<and>
   insert_q aliceOnly [(''id'', JNum 1), (''age'', JNum 30)] = (Inl DuplicatePrimaryKey, aliceOnly) \<and>
   fst (insert_q aliceOnly [(''id'', JNum 1), (''age'', JNum 30)]) = Inl DuplicatePrimaryKey \<and>
   snd (insert_q aliceOnly [(''id'', JNum 1), (''age'', JNum 30)]) = aliceOnly"
  using insert_key_failures_atomic [of "[(''age'', JNum 30)]" aliceOnly]
    insert_key_failures_atomic [of "[(''id'', JNum 1), (''age'', JNum 30)]" aliceOnly]
  by (simp add: aliceOnly_def getProp_def mapHas_def)

section \<open>Properties of objects\<close>

lemma getByKey_plain: "CHR ''.'' \<notin> set k \<Longrightarrow> getByKey ob k = getProp ob k"
  by (simp add: getByKey_def)






section \<open>The uniqueness check of an equality index\<close>

text \<open>
  C2, as stated, fails: the claim lets a record be added again when its canonical key
  already maps to its own id. \<open>addToIndex\<close> asks only whether the key is in the map. Here
  \<open>alice\<close> is added to the empty unique index, which then maps her key to her id, and a
  second \<open>addToIndex\<close> of the same record raises UniqueConstraintViolation.
\<close>

theorem unique_add_same_id_counterexample:
  "kind emailIndex = ''eq'' \<and> unique emailIndex \<and>
   addToIndex ''id'' emailIndex alice = Inr emailIndex1 \<and>
   eq_map emailIndex1 (canonicalKey (makeKeyGetter (keySpec emailIndex1) alice))
     = Some (OneId (getProp alice ''id'')) \<and>
   addToIndex ''id'' emailIndex1 alice = Inl UniqueConstraintViolation"
  by (simp add: emailIndex_def emailIndex1_def alice_def addToIndex_def getByKey_plain getProp_def)

text \<open>
  C2, amended. For a unique equality index, \<open>addToIndex\<close> raises
  UniqueConstraintViolation if and only if the canonical key string of the record is
  already a key of the map, whatever id it maps to; when it is not, the call succeeds and
  maps the key to the id of the record.
\<close>

theorem unique_add_raises_iff_key_present:
  assumes "kind idx = ''eq''" and "unique idx"
  shows "(addToIndex pk idx ob = Inl UniqueConstraintViolation
            \<longleftrightarrow> eq_map idx (canonicalKey (makeKeyGetter (keySpec idx) ob)) \<noteq> None) \<and>
         (eq_map idx (canonicalKey (makeKeyGetter (keySpec idx) ob)) = None \<longrightarrow>
            addToIndex pk idx ob =
              Inr (idx\<lparr>eq_map := (eq_map idx)(canonicalKey (makeKeyGetter (keySpec idx) ob)
                                      \<mapsto> OneId (getProp ob pk))\<rparr>))"
  using assms by (auto simp: addToIndex_def Let_def)

theorem unique_add_raises_iff_key_present_witness:
  "kind emailIndex = ''eq'' \<and> unique emailIndex \<and>
   eq_map emailIndex (canonicalKey (makeKeyGetter (keySpec emailIndex) alice)) = None \<and>
   addToIndex ''id'' emailIndex alice = Inr emailIndex1 \<and>
   eq_map emailIndex1 (canonicalKey (makeKeyGetter (keySpec emailIndex1) alice)) \<noteq> None \<and>
   addToIndex ''id'' emailIndex1 alice = Inl UniqueConstraintViolation"
  using unique_add_raises_iff_key_present [of emailIndex "''id''" alice]
    unique_add_raises_iff_key_present [of emailIndex1 "''id''" alice]
  by (simp add: emailIndex_def emailIndex1_def alice_def getByKey_plain getProp_def)

section \<open>Update\<close>



section \<open>Pruning of the trie\<close>

lemma pruned_iff:
  "pruned node \<longleftrightarrow>
     (\<forall>c n. map_of (children node) c = Some n \<longrightarrow> (ids n \<noteq> [] \<or> children n \<noteq> []) \<and> pruned n)"
proof
  assume p: "pruned node"
  show "\<forall>c n. map_of (children node) c = Some n \<longrightarrow> (ids n \<noteq> [] \<or> children n \<noteq> []) \<and> pruned n"
  proof (intro allI impI conjI)
    fix c n assume cn: "map_of (children node) c = Some n"
    then have "trieFindNode node [c] = Some n" by simp
    with p show "ids n \<noteq> [] \<or> children n \<noteq> []" unfolding pruned_def by blast
    show "pruned n"
      unfolding pruned_def
    proof (intro allI impI)
      fix q m assume "q \<noteq> []" "trieFindNode n q = Some m"
      with cn have "trieFindNode node (c # q) = Some m" by simp
      with p show "ids m \<noteq> [] \<or> children m \<noteq> []" unfolding pruned_def by blast
    qed
  qed
next
  assume a: "\<forall>c n. map_of (children node) c = Some n \<longrightarrow> (ids n \<noteq> [] \<or> children n \<noteq> []) \<and> pruned n"
  show "pruned node"
    unfolding pruned_def
  proof (intro allI impI)
    fix p m assume pn: "p \<noteq> []" and f: "trieFindNode node p = Some m"
    then obtain c q where p: "p = c # q" by (cases p) auto
    with f obtain n where cn: "map_of (children node) c = Some n" and fq: "trieFindNode n q = Some m"
      by (auto split: option.splits)
    show "ids m \<noteq> [] \<or> children m \<noteq> []"
    proof (cases q)
      case Nil
      with fq cn a show ?thesis by auto
    next
      case (Cons d r)
      with cn a have "pruned n" by blast
      with fq Cons show ?thesis unfolding pruned_def by blast
    qed
  qed
qed

lemma pruned_ids_irrelevant: "pruned (TrieNode ch is) \<longleftrightarrow> pruned (TrieNode ch is')"
  by (subst (1 2) pruned_iff) simp

lemma pruned_makeTrieNode: "pruned makeTrieNode"
  by (subst pruned_iff) (simp add: makeTrieNode_def)

lemma ids_trieInsert: "ids (trieInsert node s i) = ids node"
  by (cases s) (simp_all add: Let_def)

lemma setAdd_nonempty: "setAdd x xs \<noteq> []"
  by (cases xs) (simp_all add: setAdd_def)

lemma pruned_trieInsert: "pruned node \<Longrightarrow> pruned (trieInsert node s i)"
proof (induction s arbitrary: node)
  case Nil
  then show ?case by simp
next
  case (Cons ch rest)
  define child where "child = (case map_of (children node) ch of None \<Rightarrow> makeTrieNode | Some n \<Rightarrow> n)"
  define entered where "entered = TrieNode (children child) (setAdd i (ids child))"
  have pc: "pruned child"
    using Cons.prems pruned_makeTrieNode
    by (auto simp: child_def split: option.splits dest: pruned_iff [THEN iffD1, rule_format])
  then have "pruned entered"
    unfolding entered_def using pruned_ids_irrelevant [of "children child" "ids child"] by simp
  then have pe: "pruned (trieInsert entered rest i)" by (rule Cons.IH)
  have ie: "ids (trieInsert entered rest i) \<noteq> []"
    by (simp add: ids_trieInsert entered_def setAdd_nonempty)
  have eq: "trieInsert node (ch # rest) i
              = TrieNode (AList.update ch (trieInsert entered rest i) (children node)) (ids node)"
    by (simp add: Let_def child_def entered_def)
  show ?case
    unfolding eq
    apply (subst pruned_iff)
    using pe ie Cons.prems
    by (auto simp: update_conv' dest: pruned_iff [THEN iffD1, rule_format])
qed

lemma pruned_trieRemovePath:
  "pruned node \<Longrightarrow> trieRemovePath node s i = Some r \<Longrightarrow> pruned r"
proof (induction s arbitrary: node r)
  case Nil
  then show ?case by simp
next
  case (Cons ch rest)
  from Cons.prems(2) obtain nxt nxt' where
    n: "map_of (children node) ch = Some nxt" and
    n': "trieRemovePath nxt rest i = Some nxt'"
    by (auto split: option.splits)
  define cur where "cur = TrieNode (children nxt') (setDelete i (ids nxt'))"
  have "pruned nxt" using Cons.prems(1) n by (auto dest: pruned_iff [THEN iffD1, rule_format])
  then have "pruned nxt'" using n' by (rule Cons.IH)
  then have pc: "pruned cur"
    unfolding cur_def using pruned_ids_irrelevant [of "children nxt'" "ids nxt'"] by simp
  have r: "r = (if ids cur = [] \<and> children cur = []
                then TrieNode (AList.delete ch (children node)) (ids node)
                else TrieNode (AList.update ch cur (children node)) (ids node))"
    using Cons.prems(2) n n' by (auto simp: Let_def cur_def split: if_splits)
  show ?case
  proof (cases "ids cur = [] \<and> children cur = []")
    case True
    with r have "r = TrieNode (AList.delete ch (children node)) (ids node)" by simp
    then show ?thesis
      apply (subst pruned_iff)
      using Cons.prems(1)
      by (auto simp: delete_conv' split: if_splits dest: pruned_iff [THEN iffD1, rule_format])
  next
    case False
    with r have "r = TrieNode (AList.update ch cur (children node)) (ids node)" by simp
    then show ?thesis
      apply (subst pruned_iff)
      using Cons.prems(1) pc False
      by (auto simp: update_conv' split: if_splits dest: pruned_iff [THEN iffD1, rule_format])
  qed
qed

lemma pruned_trieRemove: "pruned root \<Longrightarrow> pruned (trieRemove root s i)"
  by (auto simp: trieRemove_def split: option.splits intro: pruned_trieRemovePath)

lemma set_AList_update:
  "p \<in> set (AList.update k v al) \<Longrightarrow> p = (k, v) \<or> p \<in> set al"
  by (induction al) (auto split: if_splits)

lemma addToIndex_pruned:
  "addToIndex pk idx ob = Inr idx' \<Longrightarrow> pruned (prefix_root idx) \<Longrightarrow> pruned (prefix_root idx')"
  by (auto simp: addToIndex_def Let_def pruned_trieInsert
           split: if_splits option.splits eqval.splits)

lemma removeFromIndex_pruned:
  "removeFromIndex pk idx ob = Inr idx' \<Longrightarrow> pruned (prefix_root idx) \<Longrightarrow> pruned (prefix_root idx')"
  by (auto simp: removeFromIndex_def Let_def pruned_trieRemove
           split: if_splits option.splits eqval.splits sum.splits)

lemma addToAll_pruned: "allPruned ixs \<Longrightarrow> allPruned (snd (addToAll pk ixs ob))"
proof (induction ixs)
  case Nil
  then show ?case by simp
next
  case (Cons p ixs)
  obtain n idx where p: "p = (n, idx)" by (cases p)
  from Cons.prems p have h: "pruned (prefix_root idx)" and t: "allPruned ixs"
    by (simp_all add: allPruned_def)
  show ?case
  proof (cases "addToIndex pk idx ob")
    case (Inl e)
    with Cons.prems p show ?thesis by simp
  next
    case (Inr idx')
    then have "pruned (prefix_root idx')" using h by (rule addToIndex_pruned)
    moreover have "allPruned (snd (addToAll pk ixs ob))" using t by (rule Cons.IH)
    ultimately show ?thesis
      using p Inr by (simp add: allPruned_def split: prod.splits)
  qed
qed

lemma removeFromAll_pruned: "allPruned ixs \<Longrightarrow> allPruned (snd (removeFromAll pk ixs ob))"
proof (induction ixs)
  case Nil
  then show ?case by simp
next
  case (Cons p ixs)
  obtain n idx where p: "p = (n, idx)" by (cases p)
  from Cons.prems p have h: "pruned (prefix_root idx)" and t: "allPruned ixs"
    by (simp_all add: allPruned_def)
  show ?case
  proof (cases "removeFromIndex pk idx ob")
    case (Inl e)
    with Cons.prems p show ?thesis by simp
  next
    case (Inr idx')
    then have "pruned (prefix_root idx')" using h by (rule removeFromIndex_pruned)
    moreover have "allPruned (snd (removeFromAll pk ixs ob))" using t by (rule Cons.IH)
    ultimately show ?thesis
      using p Inr by (simp add: allPruned_def split: prod.splits)
  qed
qed

lemma backfill_pruned:
  "pruned (prefix_root idx) \<Longrightarrow> pruned (prefix_root (snd (backfill pk idx obs)))"
proof (induction obs arbitrary: idx)
  case Nil
  then show ?case by simp
next
  case (Cons ob obs)
  show ?case
  proof (cases "addToIndex pk idx ob")
    case (Inl e)
    with Cons.prems show ?thesis by simp
  next
    case (Inr idx')
    then have "pruned (prefix_root idx')" using Cons.prems by (rule addToIndex_pruned)
    then have "pruned (prefix_root (snd (backfill pk idx' obs)))" by (rule Cons.IH)
    with Inr show ?thesis by simp
  qed
qed

lemma defineIndex_pruned:
  assumes "allPruned (indexes c)"
  shows "allPruned (indexes (snd (defineIndex c d)))"
proof -
  let ?knd = "case d_kind d of None \<Rightarrow> ''eq'' | Some k \<Rightarrow> k"
  let ?def = "\<lparr>name = d_name d, keySpec = d_key d,
               unique = (case d_unique d of None \<Rightarrow> False | Some u \<Rightarrow> u), kind = ?knd,
               compare = (case d_compare d of None \<Rightarrow> defaultCompare | Some f \<Rightarrow> f),
               eq_map = Map.empty, range_arr = [], prefix_root = makeTrieNode\<rparr>"
  have "pruned (prefix_root ?def)" by (simp add: pruned_makeTrieNode)
  then have b: "pruned (prefix_root (snd (backfill (primaryKey c) ?def (map snd (items c)))))"
    by (rule backfill_pruned)
  show ?thesis
    using assms b
    by (auto simp: defineIndex_def Let_def allPruned_def split: prod.splits
             dest!: set_AList_update)
qed

lemma insert_q_pruned:
  assumes "allPruned (indexes c)"
  shows "allPruned (indexes (snd (insert_q c ob)))"
  using assms addToAll_pruned [OF assms, of "primaryKey c" ob]
  by (auto simp: insert_q_def Let_def split: prod.splits)

lemma update_pruned:
  assumes "allPruned (indexes c)"
  shows "allPruned (indexes (snd (update c i arg)))"
proof (cases "map_of (items c) i")
  case None
  with assms show ?thesis by (simp add: update_def)
next
  case (Some prev)
  obtain r ixs where rm: "removeFromAll (primaryKey c) (indexes c) prev = (r, ixs)"
    by (cases "removeFromAll (primaryKey c) (indexes c) prev")
  have p1: "allPruned ixs"
    using removeFromAll_pruned [OF assms, of "primaryKey c" prev] rm by simp
  show ?thesis
  proof (cases r)
    case (Some e)
    with \<open>map_of (items c) i = Some prev\<close> rm p1 show ?thesis by (simp add: update_def Let_def)
  next
    case None
    define nxt where "nxt = (if isPlainObject arg
                             then AList.update (primaryKey c) i (spread prev (argFields arg))
                             else argFields arg)"
    obtain r' ixs' where a: "addToAll (primaryKey c) ixs nxt = (r', ixs')"
      by (cases "addToAll (primaryKey c) ixs nxt")
    have "allPruned ixs'"
      using addToAll_pruned [OF p1, of "primaryKey c" nxt] a by simp
    then show ?thesis
      using \<open>map_of (items c) i = Some prev\<close> rm None a
      by (simp add: update_def Let_def nxt_def)
  qed
qed

lemma remove_pruned:
  assumes "allPruned (indexes c)"
  shows "allPruned (indexes (snd (remove c i)))"
proof (cases "map_of (items c) i")
  case None
  with assms show ?thesis by (simp add: remove_def)
next
  case (Some ob)
  with removeFromAll_pruned [OF assms, of "primaryKey c" ob]
  show ?thesis by (auto simp: remove_def split: prod.splits option.splits)
qed

lemma upsert_pruned:
  assumes "allPruned (indexes c)"
  shows "allPruned (indexes (snd (upsert c arg)))"
  using assms insert_q_pruned [OF assms] update_pruned [OF assms]
  by (auto simp: upsert_def Let_def split: prod.splits sum.splits)
     (metis snd_conv)+

lemma defineAll_pruned:
  "allPruned (indexes c) \<Longrightarrow> defineAll c ds = Inr c' \<Longrightarrow> allPruned (indexes c')"
proof (induction ds arbitrary: c)
  case Nil
  then show ?case by simp
next
  case (Cons d ds)
  from Cons.prems(2) obtain k u c1 where
    d: "defineIndex c \<lparr>d_name = s_name d, d_key = k, d_unique = Some (s_unique d),
                        d_kind = Some (s_kind d), d_compare = None\<rparr> = (Inr u, c1)"
    and r: "defineAll c1 ds = Inr c'"
    by (auto split: sum.splits prod.splits)
  have "allPruned (indexes c1)"
    using defineIndex_pruned [OF Cons.prems(1)] d by (metis snd_conv)
  then show ?case using r by (rule Cons.IH)
qed

lemma insertAll_pruned:
  "allPruned (indexes c) \<Longrightarrow> insertAll c obs = Inr c' \<Longrightarrow> allPruned (indexes c')"
proof (induction obs arbitrary: c)
  case Nil
  then show ?case by simp
next
  case (Cons ob obs)
  from Cons.prems(2) obtain i c1 where
    d: "insert_q c ob = (Inr i, c1)" and r: "insertAll c1 obs = Inr c'"
    by (auto split: sum.splits prod.splits)
  have "allPruned (indexes c1)"
    using insert_q_pruned [OF Cons.prems(1)] d by (metis snd_conv)
  then show ?case using r by (rule Cons.IH)
qed

lemma deserialize_pruned: "deserialize data = Inr c \<Longrightarrow> allPruned (indexes c)"
proof -
  assume a: "deserialize data = Inr c"
  then obtain c1 where d: "defineAll (newQuerium (sd_primaryKey data)) (sd_indexDefs data) = Inr c1"
    and i: "insertAll c1 (sd_items data) = Inr c"
    by (auto simp: deserialize_def split: sum.splits)
  have "allPruned (indexes (newQuerium (sd_primaryKey data)))"
    by (simp add: newQuerium_def allPruned_def)
  then have "allPruned (indexes c1)" using d by (rule defineAll_pruned)
  then show ?thesis using i by (rule insertAll_pruned)
qed

lemma rollback_pruned:
  assumes "allPruned (indexes c)"
  shows "allPruned (indexes (snd (rollback c)))"
  using assms deserialize_pruned
  by (auto simp: rollback_def Let_def split: sum.splits)

lemma step_pruned: "allPruned (indexes c) \<Longrightarrow> allPruned (indexes (step c x))"
  by (cases x)
     (simp_all add: defineIndex_pruned insert_q_pruned upsert_pruned update_pruned remove_pruned
        rollback_pruned snapshot_def Let_def)

lemma run_pruned: "allPruned (indexes c) \<Longrightarrow> allPruned (indexes (run c ops))"
  unfolding run_def by (induction ops arbitrary: c) (simp_all add: step_pruned)

text \<open>
  C6. After any sequence of operations on a new collection (definitions of indexes,
  inserts, upserts, updates, removals, snapshots and rollbacks, whether they succeed or
  throw), no node that a non-empty path reaches from the root of a trie has both an empty
  id set and an empty child map. The root is the \<open>prefix_root\<close> field of the definition:
  \<open>trieRemove\<close> deletes children only, so the root is always there.
\<close>

theorem trie_nodes_pruned:
  "\<forall>(n, idx) \<in> set (indexes (run (newQuerium key) ops)).
     \<forall>p node. p \<noteq> [] \<longrightarrow> trieFindNode (prefix_root idx) p = Some node
        \<longrightarrow> \<not> (ids node = [] \<and> children node = [])"
proof -
  have "allPruned (indexes (newQuerium key))"
    by (simp add: newQuerium_def allPruned_def)
  then have "allPruned (indexes (run (newQuerium key) ops))" by (rule run_pruned)
  then show ?thesis unfolding allPruned_def pruned_def by blast
qed

theorem trie_nodes_pruned_witness:
  "(''byName'', pruneIdx) \<in> set (indexes (run (newQuerium ''id'') pruneOps)) \<and>
   ''fi'' \<noteq> [] \<and>
   trieFindNode (prefix_root pruneIdx) ''fi''
     = Some (TrieNode [(CHR ''d'', TrieNode [] [JNum 2])] [JNum 2]) \<and>
   \<not> (ids (TrieNode [(CHR ''d'', TrieNode [] [JNum 2])] [JNum 2]) = [] \<and>
      children (TrieNode [(CHR ''d'', TrieNode [] [JNum 2])] [JNum 2]) = []) \<and>
   trieFindNode (prefix_root pruneIdx) ''fir'' = None"
  using trie_nodes_pruned [of "''id''" pruneOps]
  by (simp add: run_def pruneOps_def pruneIdx_def nameIndexDef_def newQuerium_def defineIndex_def
        insert_q_def remove_def addToIndex_def removeFromIndex_def mapHas_def getProp_def
        getByKey_def Let_def makeTrieNode_def setAdd_def setDelete_def trieRemove_def)

section \<open>Range queries\<close>

lemma lowerBoundFrom_partition:
  assumes "\<forall>e \<in> set arr. cmp e t \<noteq> None"
    and "\<forall>i j. i < j \<longrightarrow> j < length arr \<longrightarrow> P (arr ! j) \<longrightarrow> P (arr ! i)"
    and "\<forall>e \<in> set arr. P e \<longleftrightarrow> (\<exists>c. cmp e t = Some c \<and> c < 0)"
    and "lo \<le> hi" and "hi \<le> length arr"
    and "\<forall>k < lo. P (arr ! k)"
    and "\<forall>k. hi \<le> k \<longrightarrow> k < length arr \<longrightarrow> \<not> P (arr ! k)"
  shows "\<exists>r. lowerBoundFrom arr t cmp lo hi = Some r \<and> lo \<le> r \<and> r \<le> hi \<and>
             (\<forall>k < r. P (arr ! k)) \<and> (\<forall>k. r \<le> k \<longrightarrow> k < length arr \<longrightarrow> \<not> P (arr ! k))"
  using assms
proof (induction arr t cmp lo hi rule: lowerBoundFrom.induct)
  case (1 arr target cmp lo hi)
  show ?case
  proof (cases "lo < hi")
    case False
    with "1.prems" have "lo = hi" by simp
    with "1.prems" show ?thesis by (subst lowerBoundFrom.simps) auto
  next
    case True
    define mid where "mid = (lo + hi) div 2"
    have m: "lo \<le> mid" "mid < hi" using True by (simp_all add: mid_def)
    then have ml: "mid < length arr" using "1.prems"(5) by simp
    then have mem: "arr ! mid \<in> set arr" by simp
    with "1.prems"(1) obtain c where c: "cmp (arr ! mid) target = Some c" by auto
    show ?thesis
    proof (cases "c < 0")
      case neg: True
      have pm: "P (arr ! mid)" using "1.prems"(3) mem c neg by auto
      have below: "\<forall>k < mid + 1. P (arr ! k)"
      proof (intro allI impI)
        fix k assume "k < mid + 1"
        then have "k = mid \<or> k < mid" by auto
        then show "P (arr ! k)" using pm "1.prems"(2) ml by auto
      qed
      have "\<exists>r. lowerBoundFrom arr target cmp (mid + 1) hi = Some r \<and> mid + 1 \<le> r \<and> r \<le> hi \<and>
             (\<forall>k < r. P (arr ! k)) \<and> (\<forall>k. r \<le> k \<longrightarrow> k < length arr \<longrightarrow> \<not> P (arr ! k))"
        using "1.IH"(1) [OF True mid_def c neg "1.prems"(1,2,3) _ "1.prems"(5) below "1.prems"(7)] m
        by simp
      then obtain r where r: "lowerBoundFrom arr target cmp (mid + 1) hi = Some r" "mid + 1 \<le> r" "r \<le> hi"
          "\<forall>k < r. P (arr ! k)" "\<forall>k. r \<le> k \<longrightarrow> k < length arr \<longrightarrow> \<not> P (arr ! k)"
        by blast
      have "lowerBoundFrom arr target cmp lo hi = Some r"
        using True c neg r(1) by (subst lowerBoundFrom.simps) (simp add: mid_def Let_def)
      with r m show ?thesis by auto
    next
      case nonneg: False
      have pm: "\<not> P (arr ! mid)" using "1.prems"(3) mem c nonneg by auto
      have above: "\<forall>k. mid \<le> k \<longrightarrow> k < length arr \<longrightarrow> \<not> P (arr ! k)"
      proof (intro allI impI)
        fix k assume "mid \<le> k" "k < length arr"
        then have "k = mid \<or> mid < k" by auto
        then show "\<not> P (arr ! k)" using pm "1.prems"(2) \<open>k < length arr\<close> by auto
      qed
      have "\<exists>r. lowerBoundFrom arr target cmp lo mid = Some r \<and> lo \<le> r \<and> r \<le> mid \<and>
             (\<forall>k < r. P (arr ! k)) \<and> (\<forall>k. r \<le> k \<longrightarrow> k < length arr \<longrightarrow> \<not> P (arr ! k))"
        using "1.IH"(2) [OF True mid_def c nonneg "1.prems"(1,2,3) m(1) _ "1.prems"(6) above] ml
        by simp
      then obtain r where r: "lowerBoundFrom arr target cmp lo mid = Some r" "lo \<le> r" "r \<le> mid"
          "\<forall>k < r. P (arr ! k)" "\<forall>k. r \<le> k \<longrightarrow> k < length arr \<longrightarrow> \<not> P (arr ! k)"
        by blast
      have "lowerBoundFrom arr target cmp lo hi = Some r"
        using True c nonneg r(1) by (subst lowerBoundFrom.simps) (simp add: mid_def Let_def)
      with r m show ?thesis by auto
    qed
  qed
qed

lemma lowerBound_partition:
  assumes "\<forall>e \<in> set arr. cmp e t \<noteq> None"
    and "\<forall>i j. i < j \<longrightarrow> j < length arr \<longrightarrow> P (arr ! j) \<longrightarrow> P (arr ! i)"
    and "\<forall>e \<in> set arr. P e \<longleftrightarrow> (\<exists>c. cmp e t = Some c \<and> c < 0)"
  shows "\<exists>r. lowerBound arr t cmp = Some r \<and> r \<le> length arr \<and>
             (\<forall>e \<in> set (take r arr). P e) \<and> (\<forall>e \<in> set (drop r arr). \<not> P e)"
proof -
  obtain r where r: "lowerBoundFrom arr t cmp 0 (length arr) = Some r" "r \<le> length arr"
      "\<forall>k < r. P (arr ! k)" "\<forall>k. r \<le> k \<longrightarrow> k < length arr \<longrightarrow> \<not> P (arr ! k)"
    using lowerBoundFrom_partition [where P = P and arr = arr and cmp = cmp and t = t
        and lo = 0 and hi = "length arr"] assms by auto
  have "\<forall>e \<in> set (take r arr). P e"
    using r(2,3) by (auto simp: in_set_conv_nth)
  moreover have "\<forall>e \<in> set (drop r arr). \<not> P e"
    using r(2,4) by (auto simp: in_set_conv_nth)
  ultimately show ?thesis using r by (auto simp: lowerBound_def)
qed















section \<open>Evaluation of the examples\<close>







section \<open>Snapshot and rollback\<close>

lemma AList_update_fresh: "map_of al k = None \<Longrightarrow> AList.update k v al = al @ [(k, v)]"
  by (induction al) (auto split: if_splits)















section \<open>Canonical keys\<close>































section \<open>Id sets of the trie\<close>

lemma idsAt_Nil: "idsAt node [] = ids node"
  by (simp add: idsAt_def)

lemma idsAt_Cons:
  "idsAt node (c # q) = (case map_of (children node) c of None \<Rightarrow> [] | Some n \<Rightarrow> idsAt n q)"
  by (simp add: idsAt_def split: option.splits)

lemma idsAt_no_children: "children node = [] \<Longrightarrow> q \<noteq> [] \<Longrightarrow> idsAt node q = []"
  by (cases q) (simp_all add: idsAt_Cons)

lemma idsAt_children_only: "q \<noteq> [] \<Longrightarrow> idsAt (TrieNode ch is) q = idsAt (TrieNode ch is') q"
  by (cases q) (simp_all add: idsAt_Cons)

lemma trieInsert_idsAt:
  "p \<noteq> [] \<Longrightarrow>
     idsAt (trieInsert root s i) p = (if prefix p s then setAdd i (idsAt root p) else idsAt root p)"
proof (induction s arbitrary: root p)
  case Nil
  then show ?case by simp
next
  case (Cons c cs)
  obtain d q where p: "p = d # q" using Cons.prems by (cases p) auto
  define child where "child = (case map_of (children root) c of None \<Rightarrow> makeTrieNode | Some n \<Rightarrow> n)"
  define entered where "entered = TrieNode (children child) (setAdd i (ids child))"
  have eq: "trieInsert root (c # cs) i
              = TrieNode (AList.update c (trieInsert entered cs i) (children root)) (ids root)"
    by (simp add: Let_def child_def entered_def)
  have rootc: "idsAt root (c # q) = idsAt child q" for q
    by (cases "map_of (children root) c"; cases q)
       (simp_all add: idsAt_Cons idsAt_Nil child_def makeTrieNode_def)
  show ?case
  proof (cases "d = c")
    case False
    then show ?thesis unfolding eq p by (simp add: idsAt_Cons update_conv')
  next
    case True
    show ?thesis
    proof (cases "q = []")
      case True
      then show ?thesis
        using \<open>d = c\<close> rootc [of "[]"] unfolding eq p
        by (simp add: idsAt_Cons idsAt_Nil update_conv' ids_trieInsert entered_def)
    next
      case False
      have "idsAt (trieInsert entered cs i) q
              = (if prefix q cs then setAdd i (idsAt entered q) else idsAt entered q)"
        using False by (rule Cons.IH)
      moreover have "idsAt entered q = idsAt child q"
        unfolding entered_def using idsAt_children_only [OF False, of "children child" _ "ids child"]
        by simp
      ultimately show ?thesis
        using \<open>d = c\<close> rootc [of q] unfolding eq p by (simp add: idsAt_Cons update_conv')
    qed
  qed
qed

lemma ids_trieRemovePath: "trieRemovePath node s i = Some r \<Longrightarrow> ids r = ids node"
  by (cases s) (auto simp: Let_def split: option.splits if_splits)

lemma trieRemovePath_idsAt:
  "trieRemovePath root s i = Some r \<Longrightarrow> p \<noteq> [] \<Longrightarrow>
     idsAt r p = (if prefix p s then setDelete i (idsAt root p) else idsAt root p)"
proof (induction s arbitrary: root r p)
  case Nil
  then show ?case by simp
next
  case (Cons c cs)
  obtain d q where p: "p = d # q" using Cons.prems(2) by (cases p) auto
  from Cons.prems(1) obtain nxt nxt' where
    n: "map_of (children root) c = Some nxt" and
    n': "trieRemovePath nxt cs i = Some nxt'"
    by (auto split: option.splits)
  define cur where "cur = TrieNode (children nxt') (setDelete i (ids nxt'))"
  have r: "r = (if ids cur = [] \<and> children cur = []
                then TrieNode (AList.delete c (children root)) (ids root)
                else TrieNode (AList.update c cur (children root)) (ids root))"
    using Cons.prems(1) n n' by (auto simp: Let_def cur_def split: if_splits)
  have idn: "ids nxt' = ids nxt" using n' by (rule ids_trieRemovePath)
  have ih: "idsAt nxt' q = (if prefix q cs then setDelete i (idsAt nxt q) else idsAt nxt q)"
    if "q \<noteq> []" using Cons.IH [OF n' that] .
  show ?case
  proof (cases "d = c")
    case False
    then show ?thesis by (auto simp: p r idsAt_Cons update_conv' delete_conv')
  next
    case True
    show ?thesis
    proof (cases "ids cur = [] \<and> children cur = []")
      case pr: True
      then have rr: "r = TrieNode (AList.delete c (children root)) (ids root)" using r by simp
      have lhs: "idsAt r p = []" using True by (simp add: rr p idsAt_Cons delete_conv')
      show ?thesis
      proof (cases "q = []")
        case True
        then show ?thesis
          using lhs \<open>d = c\<close> pr n idn by (simp add: p idsAt_Cons idsAt_Nil cur_def)
      next
        case False
        have "idsAt nxt' q = []"
          using pr False by (intro idsAt_no_children) (simp_all add: cur_def)
        with ih [OF False] show ?thesis
          using lhs \<open>d = c\<close> n by (auto simp: p idsAt_Cons split: if_splits)
      qed
    next
      case np: False
      then have rr: "r = TrieNode (AList.update c cur (children root)) (ids root)" using r by auto
      show ?thesis
      proof (cases "q = []")
        case True
        then show ?thesis
          using \<open>d = c\<close> n idn by (simp add: rr p idsAt_Cons idsAt_Nil update_conv' cur_def)
      next
        case False
        have "idsAt cur q = idsAt nxt' q"
          unfolding cur_def using idsAt_children_only [OF False, of "children nxt'" _ "ids nxt'"]
          by simp
        with ih [OF False] show ?thesis
          using \<open>d = c\<close> n by (simp add: rr p idsAt_Cons update_conv')
      qed
    qed
  qed
qed

lemma trieRemovePath_defined:
  "(\<forall>p. p \<noteq> [] \<longrightarrow> prefix p s \<longrightarrow> trieFindNode root p \<noteq> None) \<Longrightarrow> trieRemovePath root s i \<noteq> None"
proof (induction s arbitrary: root)
  case Nil
  then show ?case by simp
next
  case (Cons c cs)
  from Cons.prems have "trieFindNode root [c] \<noteq> None" by (metis list.distinct(1) prefix_code(1,3) prefix_order.eq_iff)
  then obtain nxt where n: "map_of (children root) c = Some nxt"
    by (auto split: option.splits)
  have "\<forall>p. p \<noteq> [] \<longrightarrow> prefix p cs \<longrightarrow> trieFindNode nxt p \<noteq> None"
  proof (intro allI impI)
    fix p assume "p \<noteq> []" "prefix p cs"
    then have "trieFindNode root (c # p) \<noteq> None" using Cons.prems by (metis Cons_prefix_Cons list.distinct(1))
    then show "trieFindNode nxt p \<noteq> None" using n by simp
  qed
  then have "trieRemovePath nxt cs i \<noteq> None" by (rule Cons.IH)
  with n show ?case by (auto simp: Let_def)
qed

section \<open>Successful operations and the stored objects\<close>

lemma addToIndex_sameDef: "addToIndex pk idx ob = Inr idx' \<Longrightarrow> sameDef idx idx'"
  by (auto simp: addToIndex_def sameDef_def Let_def split: if_splits option.splits eqval.splits)

lemma removeFromIndex_sameDef: "removeFromIndex pk idx ob = Inr idx' \<Longrightarrow> sameDef idx idx'"
  by (auto simp: removeFromIndex_def sameDef_def Let_def
           split: if_splits option.splits eqval.splits sum.splits)

lemma sameDef_refl: "sameDef idx idx"
  by (simp add: sameDef_def)

lemma sameDef_trans: "sameDef a b \<Longrightarrow> sameDef b c \<Longrightarrow> sameDef a c"
  by (simp add: sameDef_def)

lemma sameDef_sym: "sameDef a b \<Longrightarrow> sameDef b a"
  by (simp add: sameDef_def)

lemma addToAll_success:
  "addToAll pk ixs ob = (None, ixs') \<Longrightarrow>
     list_all2 (\<lambda>p p'. fst p' = fst p \<and> addToIndex pk (snd p) ob = Inr (snd p')) ixs ixs'"
proof (induction ixs arbitrary: ixs')
  case Nil
  then show ?case by simp
next
  case (Cons p ixs)
  obtain n idx where p: "p = (n, idx)" by (cases p)
  from Cons.prems p obtain idx' rest' where
    a: "addToIndex pk idx ob = Inr idx'" and r: "addToAll pk ixs ob = (None, rest')"
    and e: "ixs' = (n, idx') # rest'"
    by (auto split: sum.splits prod.splits)
  from Cons.IH [OF r] a e p show ?case by simp
qed

lemma removeFromAll_success:
  "removeFromAll pk ixs ob = (None, ixs') \<Longrightarrow>
     list_all2 (\<lambda>p p'. fst p' = fst p \<and> removeFromIndex pk (snd p) ob = Inr (snd p')) ixs ixs'"
proof (induction ixs arbitrary: ixs')
  case Nil
  then show ?case by simp
next
  case (Cons p ixs)
  obtain n idx where p: "p = (n, idx)" by (cases p)
  from Cons.prems p obtain idx' rest' where
    a: "removeFromIndex pk idx ob = Inr idx'" and r: "removeFromAll pk ixs ob = (None, rest')"
    and e: "ixs' = (n, idx') # rest'"
    by (auto split: sum.splits prod.splits)
  from Cons.IH [OF r] a e p show ?case by simp
qed

lemma list_all2_lift:
  assumes "list_all2 R xs ys" and "\<forall>x \<in> set xs. P x"
    and "\<And>x y. R x y \<Longrightarrow> P x \<Longrightarrow> P' y"
  shows "\<forall>y \<in> set ys. P' y"
  using assms by (induction rule: list_all2_induct) auto

lemma addToAll_lift:
  assumes "addToAll pk ixs ob = (None, ixs')"
    and "\<forall>(n, idx) \<in> set ixs. P idx"
    and "\<And>idx idx'. addToIndex pk idx ob = Inr idx' \<Longrightarrow> P idx \<Longrightarrow> P' idx'"
  shows "\<forall>(n, idx') \<in> set ixs'. P' idx'"
proof -
  have "\<forall>y \<in> set ixs'. P' (snd y)"
    using addToAll_success [OF assms(1)]
  proof (rule list_all2_lift)
    show "\<forall>x \<in> set ixs. P (snd x)" using assms(2) by auto
  next
    fix x y assume "fst y = fst x \<and> addToIndex pk (snd x) ob = Inr (snd y)" "P (snd x)"
    then show "P' (snd y)" using assms(3) by blast
  qed
  then show ?thesis by auto
qed

lemma removeFromAll_lift:
  assumes "removeFromAll pk ixs ob = (None, ixs')"
    and "\<forall>(n, idx) \<in> set ixs. P idx"
    and "\<And>idx idx'. removeFromIndex pk idx ob = Inr idx' \<Longrightarrow> P idx \<Longrightarrow> P' idx'"
  shows "\<forall>(n, idx') \<in> set ixs'. P' idx'"
proof -
  have "\<forall>y \<in> set ixs'. P' (snd y)"
    using removeFromAll_success [OF assms(1)]
  proof (rule list_all2_lift)
    show "\<forall>x \<in> set ixs. P (snd x)" using assms(2) by auto
  next
    fix x y assume "fst y = fst x \<and> removeFromIndex pk (snd x) ob = Inr (snd y)" "P (snd x)"
    then show "P' (snd y)" using assms(3) by blast
  qed
  then show ?thesis by auto
qed



lemma maintained_part3:
  assumes "maintained J Q"
  shows "\<forall>pk nm ks u k cmp.
        J pk \<lparr>name = nm, keySpec = ks, unique = u, kind = k, compare = cmp,
              eq_map = Map.empty, range_arr = [], prefix_root = makeTrieNode\<rparr> {}"
  using assms unfolding maintained_def by (rule conjunct2 [THEN conjunct2, THEN conjunct1])

lemma maintained_part4:
  assumes "maintained J Q"
  shows "\<forall>pk idx idx' S. sameDef idx idx' \<longrightarrow> Q pk idx' S = Q pk idx S"
  using assms unfolding maintained_def
  by (rule conjunct2 [THEN conjunct2, THEN conjunct2, THEN conjunct1])

lemma maintained_part5:
  assumes "maintained J Q"
  shows "\<forall>pk idx S T. T \<subseteq> S \<longrightarrow> Q pk idx S \<longrightarrow> Q pk idx T"
  using assms unfolding maintained_def
  by (rule conjunct2 [THEN conjunct2, THEN conjunct2, THEN conjunct2, THEN conjunct1])

lemma maintained_part6:
  assumes "maintained J Q"
  shows "\<forall>pk idx. Q pk idx {}"
  using assms unfolding maintained_def
  by (rule conjunct2 [THEN conjunct2, THEN conjunct2, THEN conjunct2, THEN conjunct2])



lemma maintained_new:
  assumes "maintained J Q"
  shows "J pk \<lparr>name = nm, keySpec = ks, unique = u, kind = k, compare = cmp,
              eq_map = Map.empty, range_arr = [], prefix_root = makeTrieNode\<rparr> {}"
  by (rule maintained_part3 [OF assms, rule_format])

lemma maintained_side_def:
  assumes "maintained J Q" "sameDef idx idx'"
  shows "Q pk idx' S = Q pk idx S"
  by (rule maintained_part4 [OF assms(1), rule_format, OF assms(2)])

lemma maintained_side_mono:
  assumes "maintained J Q" "T \<subseteq> S" "Q pk idx S"
  shows "Q pk idx T"
  by (rule maintained_part5 [OF assms(1), rule_format, OF assms(2,3)])

lemma maintained_side_empty:
  assumes "maintained J Q"
  shows "Q pk idx {}"
  by (rule maintained_part6 [OF assms, rule_format])


lemma keyed_lookup: "keyed c \<Longrightarrow> map_of (items c) i = Some ob \<longleftrightarrow> (i, ob) \<in> set (items c)"
  using map_of_eq_Some_iff [of "items c" i ob] by (simp add: keyed_def)




lemma removeFromAll_forward:
  assumes "removeFromAll pk ixs ob = (None, ixs')" and "(n, idx) \<in> set ixs"
  shows "\<exists>idx'. (n, idx') \<in> set ixs' \<and> removeFromIndex pk idx ob = Inr idx'"
proof -
  from assms(2) obtain k where k: "k < length ixs" "ixs ! k = (n, idx)"
    by (auto simp: in_set_conv_nth)
  from removeFromAll_success [OF assms(1)]
  have l: "length ixs = length ixs'"
    and a: "\<And>j. j < length ixs \<Longrightarrow> fst (ixs' ! j) = fst (ixs ! j) \<and>
               removeFromIndex pk (snd (ixs ! j)) ob = Inr (snd (ixs' ! j))"
    by (auto simp: list_all2_conv_all_nth)
  from a [of k] k l have "fst (ixs' ! k) = n" "removeFromIndex pk idx ob = Inr (snd (ixs' ! k))"
    by simp_all
  moreover have "ixs' ! k \<in> set ixs'" using k l by simp
  ultimately show ?thesis by (metis prod.collapse)
qed

lemma insert_q_success:
  assumes "insert_q c ob = (Inr i, c')"
  shows "i = getProp ob (primaryKey c)" "\<not> nullish i" "map_of (items c) i = None"
    "items c' = items c @ [(i, ob)]" "primaryKey c' = primaryKey c" "snapshots c' = snapshots c"
    "addToAll (primaryKey c) (indexes c) ob = (None, indexes c')"
proof -
  have n: "\<not> nullish (getProp ob (primaryKey c))" and f: "\<not> mapHas (items c) (getProp ob (primaryKey c))"
    using assms by (auto simp: insert_q_def Let_def split: if_splits)
  obtain r ixs where a: "addToAll (primaryKey c) (indexes c) ob = (r, ixs)"
    by (cases "addToAll (primaryKey c) (indexes c) ob")
  from assms n f a have r: "r = None" and i: "i = getProp ob (primaryKey c)"
    and c': "c' = c\<lparr>items := AList.update (getProp ob (primaryKey c)) ob (items c), indexes := ixs\<rparr>"
    by (auto simp: insert_q_def Let_def split: option.splits)
  show "i = getProp ob (primaryKey c)" by (rule i)
  show "\<not> nullish i" using n i by simp
  show m: "map_of (items c) i = None" using f i by (simp add: mapHas_def)
  show "items c' = items c @ [(i, ob)]" using c' i AList_update_fresh [OF m] by simp
  show "primaryKey c' = primaryKey c" "snapshots c' = snapshots c" using c' by simp_all
  show "addToAll (primaryKey c) (indexes c) ob = (None, indexes c')" using a r c' by simp
qed

lemma remove_success:
  assumes "remove c i = (Inr b, c')"
  shows "(map_of (items c) i = None \<and> c' = c) \<or>
         (\<exists>ob. map_of (items c) i = Some ob \<and>
               removeFromAll (primaryKey c) (indexes c) ob = (None, indexes c') \<and>
               items c' = AList.delete i (items c) \<and> primaryKey c' = primaryKey c \<and>
               snapshots c' = snapshots c)"
  using assms by (auto simp: remove_def split: option.splits prod.splits)

lemma update_success:
  assumes "update c i arg = (Inr ob, c')"
  shows "\<exists>prev ixs1. map_of (items c) i = Some prev \<and>
           removeFromAll (primaryKey c) (indexes c) prev = (None, ixs1) \<and>
           addToAll (primaryKey c) ixs1 ob = (None, indexes c') \<and>
           ob = (if isPlainObject arg
                 then AList.update (primaryKey c) i (spread prev (argFields arg))
                 else argFields arg) \<and>
           items c' = AList.update i ob (items c) \<and> primaryKey c' = primaryKey c \<and>
           snapshots c' = snapshots c"
proof (cases "map_of (items c) i")
  case None
  with assms show ?thesis by (simp add: update_def)
next
  case (Some prev)
  define nxt where "nxt = (if isPlainObject arg
                 then AList.update (primaryKey c) i (spread prev (argFields arg))
                 else argFields arg)"
  obtain r ixs1 where rm: "removeFromAll (primaryKey c) (indexes c) prev = (r, ixs1)"
    by (cases "removeFromAll (primaryKey c) (indexes c) prev")
  obtain r' ixs' where a: "addToAll (primaryKey c) ixs1 nxt = (r', ixs')"
    by (cases "addToAll (primaryKey c) ixs1 nxt")
  from assms Some rm have r: "r = None"
    by (cases r) (simp_all add: update_def Let_def)
  from assms Some rm r a have r': "r' = None" and ob: "ob = nxt"
    and c': "c' = c\<lparr>indexes := ixs', items := AList.update i nxt (items c)\<rparr>"
    by (auto simp: update_def Let_def nxt_def split: option.splits)
  show ?thesis
    using Some rm r a r' ob c' by (auto simp: nxt_def)
qed

lemma defineIndex_success:
  assumes "defineIndex c d = (Inr u, c')"
  shows "\<exists>def def'. map_of (indexes c) (d_name d) = None \<and>
           def = \<lparr>name = d_name d, keySpec = d_key d,
                   unique = (case d_unique d of None \<Rightarrow> False | Some u \<Rightarrow> u),
                   kind = (case d_kind d of None \<Rightarrow> ''eq'' | Some k \<Rightarrow> k),
                   compare = (case d_compare d of None \<Rightarrow> defaultCompare | Some f \<Rightarrow> f),
                   eq_map = Map.empty, range_arr = [], prefix_root = makeTrieNode\<rparr> \<and>
           backfill (primaryKey c) def (map snd (items c)) = (None, def') \<and>
           indexes c' = indexes c @ [(d_name d, def')] \<and>
           items c' = items c \<and> primaryKey c' = primaryKey c \<and> snapshots c' = snapshots c"
proof -
  define def where "def = \<lparr>name = d_name d, keySpec = d_key d,
                   unique = (case d_unique d of None \<Rightarrow> False | Some u \<Rightarrow> u),
                   kind = (case d_kind d of None \<Rightarrow> ''eq'' | Some k \<Rightarrow> k),
                   compare = (case d_compare d of None \<Rightarrow> defaultCompare | Some f \<Rightarrow> f),
                   eq_map = Map.empty, range_arr = [], prefix_root = makeTrieNode\<rparr>"
  obtain r def' where b: "backfill (primaryKey c) def (map snd (items c)) = (r, def')"
    by (cases "backfill (primaryKey c) def (map snd (items c))")
  have f: "map_of (indexes c) (d_name d) = None"
    using assms by (auto simp: defineIndex_def Let_def mapHas_def split: if_splits)
  from assms b have r: "r = None"
    and c': "c' = c\<lparr>indexes := AList.update (d_name d) def' (indexes c)\<rparr>"
    by (auto simp: defineIndex_def Let_def def_def split: if_splits option.splits)
  show ?thesis
    using f b r c' AList_update_fresh [OF f] by (auto simp: def_def)
qed


lemma set_AList_delete: "set (AList.delete k al) = {p \<in> set al. fst p \<noteq> k}"
  by (induction al) auto




section \<open>Invariants along a history\<close>


lemma sideOk_new: "sideOk Q (newQuerium key)"
  by (simp add: sideOk_def newQuerium_def)







lemma backfill_sameDef: "backfill pk idx obs = (None, idx') \<Longrightarrow> sameDef idx idx'"
proof (induction obs arbitrary: idx)
  case Nil
  then show ?case by (simp add: sameDef_refl)
next
  case (Cons ob obs)
  from Cons.prems obtain idx1 where a: "addToIndex pk idx ob = Inr idx1"
    and b: "backfill pk idx1 obs = (None, idx')"
    by (auto split: sum.splits)
  from addToIndex_sameDef [OF a] Cons.IH [OF b] show ?case by (rule sameDef_trans)
qed















section \<open>Prefix queries\<close>

lemma setAdd_set: "set (setAdd x xs) = Set.insert x (set xs)"
  by (auto simp: setAdd_def)

lemma setAdd_distinct: "distinct xs \<Longrightarrow> distinct (setAdd x xs)"
  by (simp add: setAdd_def)

lemma setDelete_set: "set (setDelete x xs) = set xs - {x}"
  by (simp add: setDelete_def)

lemma setDelete_distinct: "distinct xs \<Longrightarrow> distinct (setDelete x xs)"
  by (simp add: setDelete_def distinct_removeAll)

lemma keyString_sameDef: "sameDef idx idx' \<Longrightarrow> keyString idx' ob = keyString idx ob"
  by (simp add: sameDef_def keyString_def keyOf_def)

lemma prefixInv_add:
  assumes j: "prefixInv pk idx S" and a: "addToIndex pk idx ob = Inr idx'"
  shows "prefixInv pk idx' (Set.insert ob S)"
proof (cases "kind idx = ''prefix''")
  case False
  then have "kind idx' \<noteq> ''prefix''" using addToIndex_sameDef [OF a] by (simp add: sameDef_def)
  then show ?thesis by (simp add: prefixInv_def)
next
  case True
  have ks: "keyString idx' ob' = keyString idx ob'" for ob'
    using keyString_sameDef [OF addToIndex_sameDef [OF a]] .
  have root: "prefix_root idx' = trieInsert (prefix_root idx) (keyString idx ob) (getProp ob pk)"
    using a True by (auto simp: addToIndex_def Let_def keyString_def keyOf_def)
  show ?thesis
    unfolding prefixInv_def
  proof (intro impI allI)
    fix p :: string assume p: "p \<noteq> []"
    from j True p have d: "distinct (idsAt (prefix_root idx) p)"
      and s: "set (idsAt (prefix_root idx) p)
                = {getProp ob' pk | ob'. ob' \<in> S \<and> prefix p (keyString idx ob')}"
      by (simp_all add: prefixInv_def)
    show "distinct (idsAt (prefix_root idx') p) \<and>
          set (idsAt (prefix_root idx') p)
            = {getProp ob' pk | ob'. ob' \<in> Set.insert ob S \<and> prefix p (keyString idx' ob')}"
      unfolding root trieInsert_idsAt [OF p] ks
      using d s by (auto simp: setAdd_set setAdd_distinct)
  qed
qed

lemma prefixInv_remove:
  assumes j: "prefixInv pk idx S" and mem: "ob \<in> S" and inj: "inj_on (\<lambda>ob'. getProp ob' pk) S"
    and a: "removeFromIndex pk idx ob = Inr idx'"
  shows "prefixInv pk idx' (S - {ob})"
proof (cases "kind idx = ''prefix''")
  case False
  then have "kind idx' \<noteq> ''prefix''"
    using removeFromIndex_sameDef [OF a] by (simp add: sameDef_def)
  then show ?thesis by (simp add: prefixInv_def)
next
  case True
  define s where "s = keyString idx ob"
  define i where "i = getProp ob pk"
  have ks: "keyString idx' ob' = keyString idx ob'" for ob'
    using keyString_sameDef [OF removeFromIndex_sameDef [OF a]] .
  have root: "prefix_root idx' = trieRemove (prefix_root idx) s i"
    using a True by (auto simp: removeFromIndex_def Let_def keyString_def keyOf_def s_def i_def)
  have inv: "distinct (idsAt (prefix_root idx) p) \<and>
             set (idsAt (prefix_root idx) p)
                = {getProp ob' pk | ob'. ob' \<in> S \<and> prefix p (keyString idx ob')}"
    if "p \<noteq> []" for p
    using j True that by (simp add: prefixInv_def)
  have "\<forall>p. p \<noteq> [] \<longrightarrow> prefix p s \<longrightarrow> trieFindNode (prefix_root idx) p \<noteq> None"
  proof (intro allI impI)
    fix p assume p: "p \<noteq> []" "prefix p s"
    then have "i \<in> set (idsAt (prefix_root idx) p)"
      using inv [OF p(1)] mem by (auto simp: s_def i_def)
    then show "trieFindNode (prefix_root idx) p \<noteq> None"
      by (cases "trieFindNode (prefix_root idx) p") (simp_all add: idsAt_def)
  qed
  then obtain r where r: "trieRemovePath (prefix_root idx) s i = Some r"
    using trieRemovePath_defined by blast
  then have root': "prefix_root idx' = r" by (simp add: root trieRemove_def)
  show ?thesis
    unfolding prefixInv_def
  proof (intro impI allI)
    fix p :: string assume p: "p \<noteq> []"
    note iv = inv [OF p]
    have ia: "idsAt r p = (if prefix p s then setDelete i (idsAt (prefix_root idx) p)
                           else idsAt (prefix_root idx) p)"
      using trieRemovePath_idsAt [OF r p] .
    have "set (idsAt r p) = {getProp ob' pk | ob'. ob' \<in> S - {ob} \<and> prefix p (keyString idx ob')}"
    proof (cases "prefix p s")
      case True
      have "{getProp ob' pk | ob'. ob' \<in> S \<and> prefix p (keyString idx ob')} - {i}
              = {getProp ob' pk | ob'. ob' \<in> S - {ob} \<and> prefix p (keyString idx ob')}"
      proof (rule set_eqI, rule iffI)
        fix x assume "x \<in> {getProp ob' pk | ob'. ob' \<in> S \<and> prefix p (keyString idx ob')} - {i}"
        then obtain ob' where o: "x = getProp ob' pk" "ob' \<in> S" "prefix p (keyString idx ob')"
          "x \<noteq> i" by auto
        then have "ob' \<noteq> ob" by (auto simp: i_def)
        with o show "x \<in> {getProp ob' pk | ob'. ob' \<in> S - {ob} \<and> prefix p (keyString idx ob')}"
          by auto
      next
        fix x assume "x \<in> {getProp ob' pk | ob'. ob' \<in> S - {ob} \<and> prefix p (keyString idx ob')}"
        then obtain ob' where o: "x = getProp ob' pk" "ob' \<in> S" "ob' \<noteq> ob"
          "prefix p (keyString idx ob')" by auto
        have "x \<noteq> i"
        proof
          assume "x = i"
          with o(1) have "getProp ob' pk = getProp ob pk" by (simp add: i_def)
          with inj o(2) mem have "ob' = ob" by (auto dest: inj_onD)
          with o(3) show False by simp
        qed
        with o show "x \<in> {getProp ob' pk | ob'. ob' \<in> S \<and> prefix p (keyString idx ob')} - {i}"
          by auto
      qed
      with True ia iv show ?thesis by (simp add: setDelete_set)
    next
      case False
      then have "{getProp ob' pk | ob'. ob' \<in> S \<and> prefix p (keyString idx ob')}
              = {getProp ob' pk | ob'. ob' \<in> S - {ob} \<and> prefix p (keyString idx ob')}"
        by (auto simp: s_def)
      with False ia iv show ?thesis by simp
    qed
    moreover have "distinct (idsAt r p)"
      using ia iv by (simp add: setDelete_distinct)
    ultimately show "distinct (idsAt (prefix_root idx') p) \<and>
          set (idsAt (prefix_root idx') p)
            = {getProp ob' pk | ob'. ob' \<in> S - {ob} \<and> prefix p (keyString idx' ob')}"
      by (simp add: root' ks)
  qed
qed

lemma prefixInv_maintained: "maintained prefixInv (\<lambda>pk idx S. True)"
  unfolding maintained_def
proof (intro conjI allI impI)
  fix pk idx idx' S ob
  assume "prefixInv pk idx S" "addToIndex pk idx ob = Inr idx'"
  then show "prefixInv pk idx' (Set.insert ob S)" by (rule prefixInv_add)
next
  fix pk idx idx' S ob
  assume "prefixInv pk idx S" "ob \<in> S" "inj_on (\<lambda>ob'. getProp ob' pk) S"
    "removeFromIndex pk idx ob = Inr idx'"
  then show "prefixInv pk idx' (S - {ob})" by (rule prefixInv_remove)
next
  fix pk nm ks u k cmp
  show "prefixInv pk \<lparr>name = nm, keySpec = ks, unique = u, kind = k, compare = cmp,
              eq_map = Map.empty, range_arr = [], prefix_root = makeTrieNode\<rparr> {}"
    by (auto simp: prefixInv_def makeTrieNode_def idsAt_no_children)
qed simp_all












section \<open>Ordered entries\<close>

lemma ordersSet_pair:
  assumes "ordersSet f E" "a \<in> E" "b \<in> E"
  obtains x y where "f a b = Some x" "f b a = Some y" "sgn x = - sgn y"
proof -
  have c: "case (f a b, f b a) of (Some x, Some y) \<Rightarrow> sgn x = - sgn y | _ \<Rightarrow> False"
    by (rule assms(1) [unfolded ordersSet_def, THEN conjunct1, rule_format, OF assms(2,3)])
  show ?thesis
  proof (cases "f a b")
    case None
    with c show ?thesis by simp
  next
    case (Some x)
    note x = this
    show ?thesis
    proof (cases "f b a")
      case None
      with c x show ?thesis by simp
    next
      case (Some y)
      with c x have "sgn x = - sgn y" by simp
      with x Some show ?thesis by (rule that)
    qed
  qed
qed

lemma ordersSet_trans:
  assumes "ordersSet f E" "a \<in> E" "b \<in> E" "c \<in> E" "leqBy f a b" "leqBy f b c"
  shows "leqBy f a c"
  by (rule assms(1) [unfolded ordersSet_def, THEN conjunct2, rule_format, OF assms(2-6)])

lemma ordersSet_subset:
  assumes "ordersSet f E" "D \<subseteq> E"
  shows "ordersSet f D"
  unfolding ordersSet_def
proof (intro conjI ballI impI)
  fix a b assume "a \<in> D" "b \<in> D"
  then have "a \<in> E" "b \<in> E" using assms(2) by (simp_all add: subsetD)
  then show "case (f a b, f b a) of (Some x, Some y) \<Rightarrow> sgn x = - sgn y | _ \<Rightarrow> False"
    by (rule assms(1) [unfolded ordersSet_def, THEN conjunct1, rule_format])
next
  fix a b c assume "a \<in> D" "b \<in> D" "c \<in> D" and l: "leqBy f a b" "leqBy f b c"
  then have "a \<in> E" "b \<in> E" "c \<in> E" using assms(2) by (simp_all add: subsetD)
  then show "leqBy f a c" using l by (rule ordersSet_trans [OF assms(1)])
qed

lemma ordersSet_empty: "ordersSet f {}"
  by (simp add: ordersSet_def)

lemma sgn_neg_cases:
  fixes x y :: int
  assumes "sgn x = - sgn y"
  shows "(x < 0 \<and> 0 < y) \<or> (x = 0 \<and> y = 0) \<or> (0 < x \<and> y < 0)"
  using assms by (cases "x < 0"; cases "x = 0"; cases "y < 0"; cases "y = 0"; simp)

lemma ordersSet_refl:
  assumes "ordersSet f E" "a \<in> E"
  shows "f a a = Some 0"
proof -
  obtain x y where xy: "f a a = Some x" "f a a = Some y" "sgn x = - sgn y"
    using assms(1,2,2) by (rule ordersSet_pair)
  then have "x = y" by simp
  with sgn_neg_cases [OF xy(3)] have "x = 0" by auto
  with xy show ?thesis by simp
qed

lemma lessBy_iff_not_leq:
  assumes "ordersSet f E" "a \<in> E" "b \<in> E"
  shows "lessBy f a b \<longleftrightarrow> \<not> leqBy f b a"
proof -
  obtain x y where xy: "f a b = Some x" "f b a = Some y" "sgn x = - sgn y"
    using assms by (rule ordersSet_pair)
  show ?thesis using sgn_neg_cases [OF xy(3)] by (auto simp: lessBy_def leqBy_def xy)
qed

lemma lessBy_leq: "lessBy f a b \<Longrightarrow> leqBy f a b"
  by (cases "f a b") (simp_all add: lessBy_def leqBy_def)

lemma lessBy_mono:
  assumes ok: "ordersSet f E" and "t \<in> E" "a \<in> E" "b \<in> E"
    and ab: "leqBy f a b" and b: "lessBy f b t"
  shows "lessBy f a t"
proof -
  have nb: "\<not> leqBy f t b" using b lessBy_iff_not_leq [OF ok assms(4,2)] by simp
  have "\<not> leqBy f t a"
  proof
    assume "leqBy f t a"
    then have "leqBy f t b" using ab by (rule ordersSet_trans [OF ok assms(2,3,4)])
    with nb show False by simp
  qed
  then show ?thesis using lessBy_iff_not_leq [OF ok assms(3,2)] by simp
qed

lemma leqBy_zero:
  assumes "ordersSet f E" "a \<in> E" "b \<in> E" "leqBy f a b" "leqBy f b a"
  shows "f a b = Some 0"
proof -
  obtain x y where xy: "f a b = Some x" "f b a = Some y" "sgn x = - sgn y"
    using assms(1,2,3) by (rule ordersSet_pair)
  show ?thesis using assms(4,5) sgn_neg_cases [OF xy(3)] by (auto simp: leqBy_def xy)
qed

lemma defaultCompare_zero: "defaultCompare a b = 0 \<longleftrightarrow> a = b"
  by (simp add: defaultCompare_def)

lemma entryCompare_zero_eid: "entryCompare cmp a b = Some 0 \<Longrightarrow> eid a = eid b"
  by (cases "compositeCompare cmp (evalue a) (evalue b)")
     (simp_all add: entryCompare_def defaultCompare_zero split: if_splits)

lemma entryCompare_zero_value:
  "entryCompare cmp a b = Some 0 \<Longrightarrow> compositeCompare cmp (evalue a) (evalue b) = Some 0"
  by (cases "compositeCompare cmp (evalue a) (evalue b)")
     (simp_all add: entryCompare_def split: if_splits)

section \<open>The array of a range index\<close>

lemma entryOf_sameDef: "sameDef idx idx' \<Longrightarrow> entryOf pk idx' ob = entryOf pk idx ob"
  by (simp add: sameDef_def entryOf_def keyOf_def)

lemma eid_entryOf: "eid (entryOf pk idx ob) = getProp ob pk"
  by (simp add: entryOf_def)

lemma eid_entryOf_image: "eid ` entryOf pk idx ` S = (\<lambda>ob. getProp ob pk) ` S"
  by (simp add: image_image eid_entryOf)

lemma lowerBound_ordered:
  fixes f :: "entry \<Rightarrow> entry \<Rightarrow> int option"
  assumes ok: "ordersSet f E" and sub: "set arr \<subseteq> E" and t: "t \<in> E"
    and srt: "sorted_wrt (leqBy f) arr"
  shows "\<exists>r. lowerBound arr t f = Some r \<and> r \<le> length arr \<and>
             (\<forall>e \<in> set (take r arr). lessBy f e t) \<and> (\<forall>e \<in> set (drop r arr). leqBy f t e)"
proof -
  define P :: "entry \<Rightarrow> bool" where "P = (\<lambda>e. lessBy f e t)"
  have 1: "\<forall>e \<in> set arr. f e t \<noteq> None"
  proof
    fix e assume "e \<in> set arr"
    then have e: "e \<in> E" using sub by (rule subsetD [rotated])
    obtain x y where "f e t = Some x" "f t e = Some y" "sgn x = - sgn y"
      using ok e t by (rule ordersSet_pair)
    then show "f e t \<noteq> None" by simp
  qed
  have 2: "\<forall>i j. i < j \<longrightarrow> j < length arr \<longrightarrow> P (arr ! j) \<longrightarrow> P (arr ! i)"
  proof (intro allI impI)
    fix i j assume ij: "i < j" "j < length arr" and p: "P (arr ! j)"
    have le: "leqBy f (arr ! i) (arr ! j)" using srt ij by (rule sorted_wrt_nth_less)
    have mem: "arr ! i \<in> E" "arr ! j \<in> E" using sub ij by (simp_all add: subsetD)
    show "P (arr ! i)" unfolding P_def
      using le p [unfolded P_def] by (rule lessBy_mono [OF ok t mem])
  qed
  have 3: "\<forall>e \<in> set arr. P e \<longleftrightarrow> (\<exists>c. f e t = Some c \<and> c < 0)"
  proof
    fix e show "P e \<longleftrightarrow> (\<exists>c. f e t = Some c \<and> c < 0)"
      by (cases "f e t") (simp_all add: P_def lessBy_def)
  qed
  obtain r where r: "lowerBound arr t f = Some r" "r \<le> length arr"
      "\<forall>e \<in> set (take r arr). P e" "\<forall>e \<in> set (drop r arr). \<not> P e"
    using lowerBound_partition [where P = P and arr = arr and cmp = f and t = t, OF 1 2 3]
    by (elim exE conjE)
  have "\<forall>e \<in> set (drop r arr). leqBy f t e"
  proof
    fix e assume e: "e \<in> set (drop r arr)"
    then have "e \<in> set arr" by (rule in_set_dropD)
    then have "e \<in> E" using sub by (rule subsetD [rotated])
    then have "lessBy f e t \<longleftrightarrow> \<not> leqBy f t e" using t by (rule lessBy_iff_not_leq [OF ok])
    with r(4) e show "leqBy f t e" by (simp add: P_def)
  qed
  with r show ?thesis by (simp add: P_def)
qed

lemma rangeInv_add:
  assumes j: "rangeInv pk idx S" and q: "rangeSide pk idx (Set.insert ob S)"
    and fresh: "getProp ob pk \<notin> (\<lambda>ob'. getProp ob' pk) ` S"
    and a: "addToIndex pk idx ob = Inr idx'"
  shows "rangeInv pk idx' (Set.insert ob S)"
proof (cases "kind idx = ''range''")
  case False
  then have "kind idx' \<noteq> ''range''" using addToIndex_sameDef [OF a] by (simp add: sameDef_def)
  then show ?thesis by (simp add: rangeInv_def)
next
  case True
  note sd = addToIndex_sameDef [OF a]
  define f where "f = entryCompare (compare idx)"
  define node where "node = entryOf pk idx ob"
  define arr where "arr = range_arr idx"
  define E where "E = entryOf pk idx ` Set.insert ob S"
  have ok: "ordersSet f E" using q True by (simp add: rangeSide_def f_def E_def)
  have srt: "sorted_wrt (leqBy f) arr" and dst: "distinct (map eid arr)"
    and st: "set arr = entryOf pk idx ` S"
    using j True by (simp_all add: rangeInv_def arr_def f_def entryLeq_def [abs_def])
  have sub: "set arr \<subseteq> E" and t: "node \<in> E" by (auto simp: st E_def node_def)
  obtain r where r: "lowerBound arr node f = Some r" "r \<le> length arr"
      "\<forall>e \<in> set (take r arr). lessBy f e node" "\<forall>e \<in> set (drop r arr). leqBy f node e"
    using lowerBound_ordered [OF ok sub t srt] by (elim exE conjE)
  have ne: "kind idx \<noteq> ''eq''" using True by simp
  have arr': "range_arr idx' = take r arr @ [node] @ drop r arr"
    using a r(1) True ne
    by (simp add: addToIndex_def Let_def spliceIn_def node_def entryOf_def keyOf_def
          arr_def [symmetric] f_def [symmetric] split: option.splits) auto
  have split: "sorted_wrt (leqBy f) (take r arr) \<and> sorted_wrt (leqBy f) (drop r arr) \<and>
      (\<forall>x \<in> set (take r arr). \<forall>y \<in> set (drop r arr). leqBy f x y)"
    using srt sorted_wrt_append [of "leqBy f" "take r arr" "drop r arr"] by simp
  have s': "sorted_wrt (leqBy f) (take r arr @ [node] @ drop r arr)"
    using split r(3,4) by (auto simp: sorted_wrt_append dest: lessBy_leq)
  have fr: "eid node \<notin> eid ` set arr"
    unfolding st eid_entryOf_image using fresh by (simp add: node_def eid_entryOf)
  have fr1: "eid node \<notin> eid ` set (take r arr)"
    using fr set_take_subset [of r arr] by blast
  have fr2: "eid node \<notin> eid ` set (drop r arr)"
    using fr set_drop_subset [of r arr] by blast
  have "distinct (map eid (take r arr) @ map eid (drop r arr))"
    unfolding map_append [symmetric] append_take_drop_id by (rule dst)
  then have dd: "distinct (map eid (take r arr))" "distinct (map eid (drop r arr))"
      "eid ` set (take r arr) \<inter> eid ` set (drop r arr) = {}"
    by simp_all
  have d': "distinct (map eid (take r arr @ [node] @ drop r arr))"
    using dd fr1 fr2 by simp
  have "set (take r arr) \<union> set (drop r arr) = set arr"
    unfolding set_append [symmetric] append_take_drop_id ..
  then have set': "set (take r arr @ [node] @ drop r arr) = entryOf pk idx ` Set.insert ob S"
    using st by (auto simp: node_def)
  have "kind idx' = ''range''" "compare idx' = compare idx"
    using sd True by (simp_all add: sameDef_def)
  then show ?thesis
    unfolding rangeInv_def arr' entryLeq_def [abs_def] entryOf_sameDef [OF sd]
    using s' d' set' by (simp add: f_def)
qed

lemma entryOf_inj:
  assumes "inj_on (\<lambda>ob'. getProp ob' pk) S"
  shows "inj_on (entryOf pk idx) S"
proof (rule inj_onI)
  fix x y assume xy: "x \<in> S" "y \<in> S" and e: "entryOf pk idx x = entryOf pk idx y"
  from e have "eid (entryOf pk idx x) = eid (entryOf pk idx y)" by simp
  then have "getProp x pk = getProp y pk" by (simp add: eid_entryOf)
  with assms xy show "x = y" by (simp add: inj_on_def)
qed

lemma findInRun_head:
  assumes "compositeCompare cmp (evalue t) v = Some 0" "eid t = i"
  shows "findInRun cmp (t # rest) v i pos = Inr (Some pos)"
  using assms by simp

lemma rangeInv_remove:
  assumes j: "rangeInv pk idx S" and q: "rangeSide pk idx S" and mem: "ob \<in> S"
    and inj: "inj_on (\<lambda>ob'. getProp ob' pk) S"
    and a: "removeFromIndex pk idx ob = Inr idx'"
  shows "rangeInv pk idx' (S - {ob})"
proof (cases "kind idx = ''range''")
  case False
  then have "kind idx' \<noteq> ''range''" using removeFromIndex_sameDef [OF a] by (simp add: sameDef_def)
  then show ?thesis by (simp add: rangeInv_def)
next
  case True
  note sd = removeFromIndex_sameDef [OF a]
  define f where "f = entryCompare (compare idx)"
  define t where "t = entryOf pk idx ob"
  define arr where "arr = range_arr idx"
  define E where "E = entryOf pk idx ` S"
  have ok: "ordersSet f E" using q True by (simp add: rangeSide_def f_def E_def)
  have srt: "sorted_wrt (leqBy f) arr" and dst: "distinct (map eid arr)"
    and st: "set arr = E"
    using j True by (simp_all add: rangeInv_def arr_def f_def E_def entryLeq_def [abs_def])
  have sub: "set arr \<subseteq> E" using st by simp
  have tE: "t \<in> E" using mem by (simp add: t_def E_def)
  obtain r where r: "lowerBound arr t f = Some r" "r \<le> length arr"
      "\<forall>e \<in> set (take r arr). lessBy f e t" "\<forall>e \<in> set (drop r arr). leqBy f t e"
    using lowerBound_ordered [OF ok sub tE srt] by (elim exE conjE)
  have tt: "f t t = Some 0" using ok tE by (rule ordersSet_refl)
  then have "\<not> lessBy f t t" by (simp add: lessBy_def)
  with r(3) have "t \<notin> set (take r arr)" by blast
  moreover have un: "set (take r arr) \<union> set (drop r arr) = set arr"
    unfolding set_append [symmetric] append_take_drop_id ..
  ultimately have tin: "t \<in> set (drop r arr)" using tE st by blast
  then obtain e rest where dr: "drop r arr = e # rest" by (cases "drop r arr") auto
  have whole: "arr = take r arr @ e # rest" using dr append_take_drop_id [of r arr] by simp
  have s3: "sorted_wrt (leqBy f) (take r arr @ e # rest)"
    and d3: "distinct (map eid (take r arr @ e # rest))"
    using srt dst whole by simp_all
  have "e = t"
  proof (rule ccontr)
    assume n: "e \<noteq> t"
    with tin dr have tr: "t \<in> set rest" by simp
    then have "leqBy f e t" using s3 by (simp add: sorted_wrt_append)
    moreover have "leqBy f t e" using r(4) dr by simp
    moreover have "e \<in> E" using whole st by (metis in_set_conv_decomp)
    ultimately have "f e t = Some 0" using tE by (intro leqBy_zero [OF ok])
    then have "eid e = eid t" unfolding f_def by (rule entryCompare_zero_eid)
    with tr d3 show False by auto
  qed
  with dr whole s3 d3 have dr: "drop r arr = t # rest" and whole: "arr = take r arr @ t # rest"
    and s3: "sorted_wrt (leqBy f) (take r arr @ t # rest)"
    and d3: "distinct (map eid (take r arr @ t # rest))" by simp_all
  have rest: "drop (Suc r) arr = rest"
    using dr by (metis drop_Suc list.sel(3) tl_drop)
  have v: "compositeCompare (compare idx) (evalue t) (evalue t) = Some 0"
    using tt unfolding f_def by (rule entryCompare_zero_value)
  have run: "findInRun (compare idx) (drop r arr) (evalue t) (eid t) r = Inr (Some r)"
    unfolding dr using v by (rule findInRun_head) simp
  have r1: "lowerBound (range_arr idx)
               \<lparr>evalue = normalizeComposite (makeKeyGetter (keySpec idx) ob), eid = getProp ob pk\<rparr>
               (entryCompare (compare idx)) = Some r"
    using r(1) by (simp add: t_def entryOf_def keyOf_def arr_def f_def)
  have run1: "findInRun (compare idx) (drop r (range_arr idx))
                (normalizeComposite (makeKeyGetter (keySpec idx) ob)) (getProp ob pk) r = Inr (Some r)"
    using run by (simp add: t_def entryOf_def keyOf_def arr_def)
  have ne: "kind idx \<noteq> ''eq''" using True by simp
  have "idx' = idx\<lparr>range_arr := spliceOut r (range_arr idx)\<rparr>"
    using a True ne by (simp add: removeFromIndex_def Let_def r1 run1)
  then have arr': "range_arr idx' = take r arr @ rest"
    by (simp add: spliceOut_def arr_def [symmetric] rest)
  have s': "sorted_wrt (leqBy f) (take r arr @ rest)"
    using s3 by (simp add: sorted_wrt_append)
  have d': "distinct (map eid (take r arr @ rest))"
    using d3 by simp
  have "distinct (take r arr @ t # rest)" using d3 by (rule distinct_map [THEN iffD1, THEN conjunct1])
  then have tn: "t \<notin> set (take r arr @ rest)" by simp
  have "set arr = Set.insert t (set (take r arr @ rest))"
    by (subst whole) simp
  with tn have "set (take r arr @ rest) = E - {t}" using st by auto
  also have "\<dots> = entryOf pk idx ` (S - {ob})"
    unfolding E_def t_def using entryOf_inj [OF inj, of idx] mem
    by (simp add: inj_on_image_set_diff [of _ S])
  finally have set': "set (take r arr @ rest) = entryOf pk idx ` (S - {ob})" .
  have "kind idx' = ''range''" "compare idx' = compare idx"
    using sd True by (simp_all add: sameDef_def)
  then show ?thesis
    unfolding rangeInv_def arr' entryLeq_def [abs_def] entryOf_sameDef [OF sd]
    using s' d' set' by (simp add: f_def)
qed

lemma rangeInv_maintained: "maintained rangeInv rangeSide"
  unfolding maintained_def
proof (intro conjI allI impI)
  fix pk idx idx' S ob
  assume "rangeInv pk idx S" "rangeSide pk idx (Set.insert ob S)"
    "getProp ob pk \<notin> (\<lambda>ob'. getProp ob' pk) ` S" "addToIndex pk idx ob = Inr idx'"
  then show "rangeInv pk idx' (Set.insert ob S)" by (rule rangeInv_add)
next
  fix pk idx idx' S ob
  assume "rangeInv pk idx S" "rangeSide pk idx S" "ob \<in> S" "inj_on (\<lambda>ob'. getProp ob' pk) S"
    "removeFromIndex pk idx ob = Inr idx'"
  then show "rangeInv pk idx' (S - {ob})" by (rule rangeInv_remove)
next
  fix pk nm ks u k cmp
  show "rangeInv pk \<lparr>name = nm, keySpec = ks, unique = u, kind = k, compare = cmp,
              eq_map = Map.empty, range_arr = [], prefix_root = makeTrieNode\<rparr> {}"
    by (simp add: rangeInv_def)
next
  fix pk idx idx' S
  assume sd: "sameDef idx idx'"
  then have "kind idx' = kind idx" "compare idx' = compare idx"
    by (simp_all add: sameDef_def)
  moreover have "entryOf pk idx' ` S = entryOf pk idx ` S"
    using entryOf_sameDef [OF sd] by (simp add: image_def)
  ultimately show "rangeSide pk idx' S = rangeSide pk idx S" by (simp add: rangeSide_def)
next
  fix pk idx S T
  assume ts: "T \<subseteq> S" and q: "rangeSide pk idx S"
  show "rangeSide pk idx T"
    unfolding rangeSide_def
  proof
    assume "kind idx = ''range''"
    with q have "ordersSet (entryCompare (compare idx)) (entryOf pk idx ` S)"
      by (simp add: rangeSide_def)
    moreover have "entryOf pk idx ` T \<subseteq> entryOf pk idx ` S" using ts by (rule image_mono)
    ultimately show "ordersSet (entryCompare (compare idx)) (entryOf pk idx ` T)"
      by (rule ordersSet_subset)
  qed
next
  fix pk idx
  show "rangeSide pk idx {}" by (simp add: rangeSide_def ordersSet_empty)
qed








section \<open>Equality indexes\<close>

lemma keyText_sameDef: "sameDef idx idx' \<Longrightarrow> keyText idx' ob = keyText idx ob"
  by (simp add: sameDef_def keyText_def keyOf_def)

lemma keyText_raw: "canonicalKey (makeKeyGetter (keySpec idx) ob) = keyText idx ob"
  by (simp add: keyText_def keyOf_def)

lemma eqInv_other:
  assumes "kind idx \<noteq> ''eq''"
  shows "eqInv pk idx S"
  using assms by (simp add: eqInv_def)

lemma eqInv_add_unique:
  assumes j: "eqInv pk idx S" and a: "addToIndex pk idx ob = Inr idx'"
    and k: "kind idx = ''eq''" and u: "unique idx"
  shows "eqInv pk idx' (Set.insert ob S)"
proof -
  note sd = addToIndex_sameDef [OF a]
  define k0 where "k0 = keyText idx ob"
  have kt: "keyText idx' = keyText idx" using keyText_sameDef [OF sd] by (rule ext)
  have ku: "kind idx' = ''eq''" "unique idx'" using sd k u by (simp_all add: sameDef_def)
  have free: "eq_map idx k0 = None"
    using a k u by (simp add: addToIndex_def Let_def keyText_raw k0_def split: if_splits)
  have m: "eq_map idx' = (eq_map idx)(k0 \<mapsto> OneId (getProp ob pk))"
    using a k u by (auto simp: addToIndex_def Let_def keyText_raw k0_def split: if_splits)
  from j k u have 1: "\<forall>ob' \<in> S. eq_map idx (keyText idx ob') = Some (OneId (getProp ob' pk))"
    and 2: "\<forall>k. eq_map idx k \<noteq> None \<longrightarrow> k \<in> keyText idx ` S"
    by (simp_all add: eqInv_def)
  have a1: "\<forall>ob' \<in> Set.insert ob S. eq_map idx' (keyText idx ob') = Some (OneId (getProp ob' pk))"
  proof
    fix ob' assume "ob' \<in> Set.insert ob S"
    then show "eq_map idx' (keyText idx ob') = Some (OneId (getProp ob' pk))"
    proof
      assume "ob' = ob" then show ?thesis by (simp add: m k0_def)
    next
      assume "ob' \<in> S"
      with 1 have e: "eq_map idx (keyText idx ob') = Some (OneId (getProp ob' pk))" by simp
      with free have "keyText idx ob' \<noteq> k0" by auto
      with e show ?thesis by (simp add: m)
    qed
  qed
  have a2: "\<forall>k. eq_map idx' k \<noteq> None \<longrightarrow> k \<in> keyText idx ` Set.insert ob S"
    using 2 by (auto simp: m k0_def)
  show ?thesis unfolding eqInv_def kt using ku a1 a2 by simp
qed

lemma eqInv_add_shared:
  assumes j: "eqInv pk idx S" and a: "addToIndex pk idx ob = Inr idx'"
    and k: "kind idx = ''eq''" and u: "\<not> unique idx"
  shows "eqInv pk idx' (Set.insert ob S)"
proof -
  note sd = addToIndex_sameDef [OF a]
  define k0 where "k0 = keyText idx ob"
  define i where "i = getProp ob pk"
  have kt: "keyText idx' = keyText idx" using keyText_sameDef [OF sd] by (rule ext)
  have ku: "kind idx' = ''eq''" "\<not> unique idx'" using sd k u by (simp_all add: sameDef_def)
  from j k u have inv: "case eq_map idx q of
                  None \<Rightarrow> q \<notin> keyText idx ` S
                | Some (OneId j) \<Rightarrow> False
                | Some (IdSet s) \<Rightarrow>
                    s \<noteq> [] \<and> distinct s \<and>
                    set s = {getProp ob pk | ob. ob \<in> S \<and> keyText idx ob = q}" for q
    by (simp add: eqInv_def)
  define s0 where "s0 = (case eq_map idx k0 of Some (IdSet s) \<Rightarrow> s | _ \<Rightarrow> [])"
  have s0: "distinct s0" "set s0 = {getProp ob pk | ob. ob \<in> S \<and> keyText idx ob = k0}"
    using inv [of k0] by (auto simp: s0_def split: option.splits eqval.splits)
  have m: "eq_map idx' = (eq_map idx)(k0 \<mapsto> IdSet (setAdd i s0))"
    using a k u inv [of k0]
    by (auto simp: addToIndex_def Let_def keyText_raw k0_def i_def s0_def
             split: option.splits eqval.splits)
  have "case eq_map idx' q of
                  None \<Rightarrow> q \<notin> keyText idx ` Set.insert ob S
                | Some (OneId j) \<Rightarrow> False
                | Some (IdSet s) \<Rightarrow>
                    s \<noteq> [] \<and> distinct s \<and>
                    set s = {getProp ob' pk | ob'. ob' \<in> Set.insert ob S \<and> keyText idx ob' = q}" for q
  proof (cases "q = k0")
    case True
    have "set (setAdd i s0) = {getProp ob' pk | ob'. ob' \<in> Set.insert ob S \<and> keyText idx ob' = k0}"
      unfolding setAdd_set s0(2) by (auto simp: i_def k0_def)
    then show ?thesis using True s0(1) by (simp add: m setAdd_nonempty setAdd_distinct)
  next
    case False
    then have "keyText idx ob \<noteq> q" by (simp add: k0_def)
    then have e1: "{getProp ob' pk | ob'. ob' \<in> Set.insert ob S \<and> keyText idx ob' = q}
                 = {getProp ob' pk | ob'. ob' \<in> S \<and> keyText idx ob' = q}"
      and e2: "(q \<notin> keyText idx ` Set.insert ob S) = (q \<notin> keyText idx ` S)"
      by auto
    have mq: "eq_map idx' q = eq_map idx q" using False by (simp add: m)
    show ?thesis unfolding mq e1 e2 by (rule inv)
  qed
  then show ?thesis unfolding eqInv_def kt using ku by simp
qed

lemma eqInv_add:
  assumes j: "eqInv pk idx S" and a: "addToIndex pk idx ob = Inr idx'"
  shows "eqInv pk idx' (Set.insert ob S)"
proof (cases "kind idx = ''eq''")
  case False
  then have "kind idx' \<noteq> ''eq''" using addToIndex_sameDef [OF a] by (simp add: sameDef_def)
  then show ?thesis by (rule eqInv_other)
next
  case True
  show ?thesis
  proof (cases "unique idx")
    case True
    with j a \<open>kind idx = ''eq''\<close> show ?thesis by (intro eqInv_add_unique)
  next
    case False
    with j a \<open>kind idx = ''eq''\<close> show ?thesis by (intro eqInv_add_shared)
  qed
qed

lemma eqInv_remove_unique:
  assumes j: "eqInv pk idx S" and mem: "ob \<in> S" and inj: "inj_on (\<lambda>ob'. getProp ob' pk) S"
    and a: "removeFromIndex pk idx ob = Inr idx'"
    and k: "kind idx = ''eq''" and u: "unique idx"
  shows "eqInv pk idx' (S - {ob})"
proof -
  note sd = removeFromIndex_sameDef [OF a]
  define k0 where "k0 = keyText idx ob"
  have kt: "keyText idx' = keyText idx" using keyText_sameDef [OF sd] by (rule ext)
  have ku: "kind idx' = ''eq''" "unique idx'" using sd k u by (simp_all add: sameDef_def)
  from j k u have 1: "\<forall>ob' \<in> S. eq_map idx (keyText idx ob') = Some (OneId (getProp ob' pk))"
    and 2: "\<forall>k. eq_map idx k \<noteq> None \<longrightarrow> k \<in> keyText idx ` S"
    by (simp_all add: eqInv_def)
  from 1 mem have own: "eq_map idx k0 = Some (OneId (getProp ob pk))" by (simp add: k0_def)
  have m: "eq_map idx' = (eq_map idx)(k0 := None)"
    using a k u own by (auto simp: removeFromIndex_def Let_def keyText_raw k0_def)
  have other: "keyText idx ob' \<noteq> k0" if "ob' \<in> S - {ob}" for ob'
  proof
    assume e: "keyText idx ob' = k0"
    from that 1 have "eq_map idx (keyText idx ob') = Some (OneId (getProp ob' pk))" by simp
    with e own have "getProp ob' pk = getProp ob pk" by simp
    with inj that mem have "ob' = ob" by (auto simp: inj_on_def)
    with that show False by simp
  qed
  have a1: "\<forall>ob' \<in> S - {ob}. eq_map idx' (keyText idx ob') = Some (OneId (getProp ob' pk))"
  proof
    fix ob' assume o: "ob' \<in> S - {ob}"
    then have "eq_map idx (keyText idx ob') = Some (OneId (getProp ob' pk))" using 1 by simp
    with other [OF o] show "eq_map idx' (keyText idx ob') = Some (OneId (getProp ob' pk))"
      by (simp add: m)
  qed
  have a2: "\<forall>q. eq_map idx' q \<noteq> None \<longrightarrow> q \<in> keyText idx ` (S - {ob})"
  proof (intro allI impI)
    fix q assume "eq_map idx' q \<noteq> None"
    then have q: "q \<noteq> k0" "eq_map idx q \<noteq> None" by (auto simp: m split: if_splits)
    with 2 obtain ob' where o: "ob' \<in> S" "keyText idx ob' = q" by auto
    with q have "ob' \<noteq> ob" by (auto simp: k0_def)
    with o show "q \<in> keyText idx ` (S - {ob})" by auto
  qed
  show ?thesis unfolding eqInv_def kt using ku a1 a2 by simp
qed

lemma eqInv_remove_shared:
  assumes j: "eqInv pk idx S" and mem: "ob \<in> S" and inj: "inj_on (\<lambda>ob'. getProp ob' pk) S"
    and a: "removeFromIndex pk idx ob = Inr idx'"
    and k: "kind idx = ''eq''" and u: "\<not> unique idx"
  shows "eqInv pk idx' (S - {ob})"
proof -
  note sd = removeFromIndex_sameDef [OF a]
  define k0 where "k0 = keyText idx ob"
  define i where "i = getProp ob pk"
  have kt: "keyText idx' = keyText idx" using keyText_sameDef [OF sd] by (rule ext)
  have ku: "kind idx' = ''eq''" "\<not> unique idx'" using sd k u by (simp_all add: sameDef_def)
  from j k u have inv: "case eq_map idx q of
                  None \<Rightarrow> q \<notin> keyText idx ` S
                | Some (OneId j) \<Rightarrow> False
                | Some (IdSet s) \<Rightarrow>
                    s \<noteq> [] \<and> distinct s \<and>
                    set s = {getProp ob pk | ob. ob \<in> S \<and> keyText idx ob = q}" for q
    by (simp add: eqInv_def)
  have "k0 \<in> keyText idx ` S" using mem by (simp add: k0_def)
  with inv [of k0] obtain s0 where s0: "eq_map idx k0 = Some (IdSet s0)" "distinct s0"
      "set s0 = {getProp ob pk | ob. ob \<in> S \<and> keyText idx ob = k0}"
    by (auto split: option.splits eqval.splits)
  define s1 where "s1 = setDelete i s0"
  have s1: "distinct s1" "set s1 = set s0 - {i}"
    using s0(2) by (simp_all add: s1_def setDelete_distinct setDelete_set)
  have rest: "set s1 = {getProp ob' pk | ob'. ob' \<in> S - {ob} \<and> keyText idx ob' = k0}"
  proof (rule set_eqI, rule iffI)
    fix x assume "x \<in> set s1"
    then have x: "x \<in> set s0" "x \<noteq> i" by (simp_all add: s1(2))
    then obtain ob' where o: "x = getProp ob' pk" "ob' \<in> S" "keyText idx ob' = k0"
      using s0(3) by auto
    with x have "ob' \<noteq> ob" by (auto simp: i_def)
    with o show "x \<in> {getProp ob' pk | ob'. ob' \<in> S - {ob} \<and> keyText idx ob' = k0}" by auto
  next
    fix x assume "x \<in> {getProp ob' pk | ob'. ob' \<in> S - {ob} \<and> keyText idx ob' = k0}"
    then obtain ob' where o: "x = getProp ob' pk" "ob' \<in> S" "ob' \<noteq> ob" "keyText idx ob' = k0"
      by auto
    then have "x \<in> set s0" using s0(3) by auto
    moreover have "x \<noteq> i" using o inj mem by (auto simp: i_def inj_on_def)
    ultimately show "x \<in> set s1" by (simp add: s1(2))
  qed
  have m: "eq_map idx' = (if s1 = [] then (eq_map idx)(k0 := None)
                          else (eq_map idx)(k0 \<mapsto> IdSet s1))"
    using a k u s0(1)
    by (auto simp: removeFromIndex_def Let_def keyText_raw k0_def i_def s1_def)
  have "case eq_map idx' q of
                  None \<Rightarrow> q \<notin> keyText idx ` (S - {ob})
                | Some (OneId j) \<Rightarrow> False
                | Some (IdSet s) \<Rightarrow>
                    s \<noteq> [] \<and> distinct s \<and>
                    set s = {getProp ob' pk | ob'. ob' \<in> S - {ob} \<and> keyText idx ob' = q}" for q
  proof (cases "q = k0")
    case True
    show ?thesis
    proof (cases "s1 = []")
      case True
      with rest have "k0 \<notin> keyText idx ` (S - {ob})" by auto
      with True \<open>q = k0\<close> show ?thesis by (simp add: m)
    next
      case False
      with \<open>q = k0\<close> s1(1) rest show ?thesis by (simp add: m)
    qed
  next
    case False
    then have "keyText idx ob \<noteq> q" by (simp add: k0_def)
    then have e1: "{getProp ob' pk | ob'. ob' \<in> S - {ob} \<and> keyText idx ob' = q}
                 = {getProp ob' pk | ob'. ob' \<in> S \<and> keyText idx ob' = q}"
      and e2: "(q \<notin> keyText idx ` (S - {ob})) = (q \<notin> keyText idx ` S)"
      by auto
    have mq: "eq_map idx' q = eq_map idx q" using False by (simp add: m)
    show ?thesis unfolding mq e1 e2 by (rule inv)
  qed
  then show ?thesis unfolding eqInv_def kt using ku by simp
qed

lemma eqInv_remove:
  assumes j: "eqInv pk idx S" and mem: "ob \<in> S" and inj: "inj_on (\<lambda>ob'. getProp ob' pk) S"
    and a: "removeFromIndex pk idx ob = Inr idx'"
  shows "eqInv pk idx' (S - {ob})"
proof (cases "kind idx = ''eq''")
  case False
  then have "kind idx' \<noteq> ''eq''" using removeFromIndex_sameDef [OF a] by (simp add: sameDef_def)
  then show ?thesis by (rule eqInv_other)
next
  case True
  show ?thesis
  proof (cases "unique idx")
    case True
    with j mem inj a \<open>kind idx = ''eq''\<close> show ?thesis by (intro eqInv_remove_unique)
  next
    case False
    with j mem inj a \<open>kind idx = ''eq''\<close> show ?thesis by (intro eqInv_remove_shared)
  qed
qed

lemma rootInv_add:
  assumes "rootInv pk idx S" "addToIndex pk idx ob = Inr idx'"
  shows "rootInv pk idx' T"
  using assms
  by (auto simp: rootInv_def addToIndex_def Let_def ids_trieInsert
           split: if_splits option.splits eqval.splits)

lemma rootInv_remove:
  assumes "rootInv pk idx S" "removeFromIndex pk idx ob = Inr idx'"
  shows "rootInv pk idx' T"
  using assms
  by (auto simp: rootInv_def removeFromIndex_def Let_def trieRemove_def
           split: if_splits option.splits eqval.splits sum.splits dest: ids_trieRemovePath)

section \<open>Well-formed collections\<close>

lemma storageInv_maintained: "maintained storageInv rangeSide"
  unfolding maintained_def
proof (intro conjI allI impI)
  fix pk idx idx' S ob
  assume j: "storageInv pk idx S" and q: "rangeSide pk idx (Set.insert ob S)"
    and f: "getProp ob pk \<notin> (\<lambda>ob'. getProp ob' pk) ` S" and a: "addToIndex pk idx ob = Inr idx'"
  from j have 1: "eqInv pk idx S" and 2: "rangeInv pk idx S" and 3: "prefixInv pk idx S"
    and 4: "rootInv pk idx S" by (simp_all add: storageInv_def)
  show "storageInv pk idx' (Set.insert ob S)"
    unfolding storageInv_def
    using eqInv_add [OF 1 a] rangeInv_add [OF 2 q f a] prefixInv_add [OF 3 a] rootInv_add [OF 4 a]
    by simp
next
  fix pk idx idx' S ob
  assume j: "storageInv pk idx S" and q: "rangeSide pk idx S" and mem: "ob \<in> S"
    and inj: "inj_on (\<lambda>ob'. getProp ob' pk) S" and a: "removeFromIndex pk idx ob = Inr idx'"
  from j have 1: "eqInv pk idx S" and 2: "rangeInv pk idx S" and 3: "prefixInv pk idx S"
    and 4: "rootInv pk idx S" by (simp_all add: storageInv_def)
  show "storageInv pk idx' (S - {ob})"
    unfolding storageInv_def
    using eqInv_remove [OF 1 mem inj a] rangeInv_remove [OF 2 q mem inj a]
      prefixInv_remove [OF 3 mem inj a] rootInv_remove [OF 4 a]
    by simp
next
  fix pk nm ks u k cmp
  show "storageInv pk \<lparr>name = nm, keySpec = ks, unique = u, kind = k, compare = cmp,
              eq_map = Map.empty, range_arr = [], prefix_root = makeTrieNode\<rparr> {}"
    unfolding storageInv_def
    using maintained_new [OF prefixInv_maintained, of pk nm ks u k cmp]
    by (simp add: eqInv_def rangeInv_def rootInv_def makeTrieNode_def)
next
  fix pk idx idx' S
  assume "sameDef idx idx'"
  then show "rangeSide pk idx' S = rangeSide pk idx S"
    by (rule maintained_side_def [OF rangeInv_maintained])
next
  fix pk idx S T
  assume "T \<subseteq> S" "rangeSide pk idx S"
  then show "rangeSide pk idx T" by (rule maintained_side_mono [OF rangeInv_maintained])
next
  fix pk idx
  show "rangeSide pk idx {}" by (rule maintained_side_empty [OF rangeInv_maintained])
qed

lemma sameDefs_refl: "sameDefs ixs ixs"
  by (simp add: sameDefs_def list_all2_refl sameDef_refl)

lemma sameDefs_trans:
  assumes "sameDefs a b" "sameDefs b c"
  shows "sameDefs a c"
proof -
  have "list_all2 (\<lambda>p p'. fst p' = fst p \<and> sameDef (snd p) (snd p')) a c"
  proof (rule list_all2_trans)
    show "list_all2 (\<lambda>p p'. fst p' = fst p \<and> sameDef (snd p) (snd p')) a b"
      using assms(1) by (simp add: sameDefs_def)
    show "list_all2 (\<lambda>p p'. fst p' = fst p \<and> sameDef (snd p) (snd p')) b c"
      using assms(2) by (simp add: sameDefs_def)
  next
    fix x y z :: "string \<times> index"
    assume "fst y = fst x \<and> sameDef (snd x) (snd y)" "fst z = fst y \<and> sameDef (snd y) (snd z)"
    then show "fst z = fst x \<and> sameDef (snd x) (snd z)" by (auto intro: sameDef_trans)
  qed
  then show ?thesis by (simp add: sameDefs_def)
qed

lemma sameDefs_sym: "sameDefs a b \<Longrightarrow> sameDefs b a"
  unfolding sameDefs_def
  by (subst list_all2_conv_all_nth, subst (asm) list_all2_conv_all_nth) (auto intro: sameDef_sym)

lemma sameDefs_names: "sameDefs a b \<Longrightarrow> map fst b = map fst a"
  unfolding sameDefs_def by (induction a b rule: list_all2_induct) simp_all

lemma sameDefs_forward:
  assumes "sameDefs a b" "(n, idx) \<in> set a"
  shows "\<exists>idx'. (n, idx') \<in> set b \<and> sameDef idx idx'"
  using assms unfolding sameDefs_def
  by (induction a b rule: list_all2_induct) (auto simp: prod_eq_iff)

lemma sameDefs_lookup:
  assumes "sameDefs a b"
  shows "(map_of a n = None \<longrightarrow> map_of b n = None) \<and>
         (\<forall>idx. map_of a n = Some idx \<longrightarrow> (\<exists>idx'. map_of b n = Some idx' \<and> sameDef idx idx'))"
  using assms unfolding sameDefs_def
  by (induction a b rule: list_all2_induct) (auto simp: prod_eq_iff)

lemma addToAll_sameDefs: "addToAll pk ixs ob = (None, ixs') \<Longrightarrow> sameDefs ixs ixs'"
  unfolding sameDefs_def
  by (drule addToAll_success, erule list_all2_mono) (auto dest: addToIndex_sameDef)

lemma removeFromAll_sameDefs: "removeFromAll pk ixs ob = (None, ixs') \<Longrightarrow> sameDefs ixs ixs'"
  unfolding sameDefs_def
  by (drule removeFromAll_success, erule list_all2_mono) (auto dest: removeFromIndex_sameDef)

lemma wellFormed_new: "wellFormed (newQuerium key)"
  by (simp add: wellFormed_def newQuerium_def)

lemma wellFormed_indexes:
  assumes w: "wellFormed c" and sd: "sameDefs (indexes c) (indexes c')"
    and it: "\<forall>(i, ob) \<in> set (items c'). \<not> nullish i"
  shows "wellFormed c'"
proof -
  have 1: "distinct (map fst (indexes c'))"
    using w sameDefs_names [OF sd] by (simp add: wellFormed_def)
  have 2: "\<forall>(n, idx') \<in> set (indexes c'). name idx' = n \<and> kind idx' \<in> set [''eq'', ''range'', ''prefix'']"
  proof (clarify)
    fix n idx' assume "(n, idx') \<in> set (indexes c')"
    then obtain idx where i: "(n, idx) \<in> set (indexes c)" and s: "sameDef idx' idx"
      using sameDefs_forward [OF sameDefs_sym [OF sd]] by blast
    from w i have "name idx = n \<and> kind idx \<in> set [''eq'', ''range'', ''prefix'']"
      by (auto simp: wellFormed_def)
    with s show "name idx' = n \<and> kind idx' \<in> set [''eq'', ''range'', ''prefix'']"
      by (simp add: sameDef_def)
  qed
  show ?thesis unfolding wellFormed_def using 1 2 it by simp
qed

lemma insert_wellFormed:
  assumes w: "wellFormed c" and ins: "insert_q c ob = (Inr i, c')"
  shows "wellFormed c'" "sameDefs (indexes c) (indexes c')"
proof -
  note s = insert_q_success [OF ins]
  show sd: "sameDefs (indexes c) (indexes c')" using s(7) by (rule addToAll_sameDefs)
  have "\<forall>(j, ob') \<in> set (items c'). \<not> nullish j"
    using w s(2,4) by (auto simp: wellFormed_def)
  with w sd show "wellFormed c'" by (rule wellFormed_indexes)
qed

lemma remove_wellFormed:
  assumes w: "wellFormed c" and rm: "remove c i = (Inr b, c')"
  shows "wellFormed c'" "sameDefs (indexes c) (indexes c')"
proof -
  from remove_success [OF rm]
  have "wellFormed c' \<and> sameDefs (indexes c) (indexes c')"
  proof
    assume "map_of (items c) i = None \<and> c' = c"
    with w show ?thesis by (simp add: sameDefs_refl)
  next
    assume "\<exists>ob. map_of (items c) i = Some ob \<and>
               removeFromAll (primaryKey c) (indexes c) ob = (None, indexes c') \<and>
               items c' = AList.delete i (items c) \<and> primaryKey c' = primaryKey c \<and>
               snapshots c' = snapshots c"
    then obtain ob where r: "removeFromAll (primaryKey c) (indexes c) ob = (None, indexes c')"
      and it: "items c' = AList.delete i (items c)" by blast
    have sd: "sameDefs (indexes c) (indexes c')" using r by (rule removeFromAll_sameDefs)
    have "\<forall>(j, ob') \<in> set (items c'). \<not> nullish j"
      using w it by (auto simp: wellFormed_def set_AList_delete)
    with w sd show ?thesis by (simp add: wellFormed_indexes)
  qed
  then show "wellFormed c'" "sameDefs (indexes c) (indexes c')" by simp_all
qed

lemma update_wellFormed:
  assumes w: "wellFormed c" and up: "update c i arg = (Inr ob, c')"
  shows "wellFormed c'" "sameDefs (indexes c) (indexes c')"
proof -
  from update_success [OF up] obtain prev ixs1 where
    p: "map_of (items c) i = Some prev"
    and r: "removeFromAll (primaryKey c) (indexes c) prev = (None, ixs1)"
    and a: "addToAll (primaryKey c) ixs1 ob = (None, indexes c')"
    and it: "items c' = AList.update i ob (items c)"
    by blast
  show sd: "sameDefs (indexes c) (indexes c')"
    using removeFromAll_sameDefs [OF r] addToAll_sameDefs [OF a] by (rule sameDefs_trans)
  have "fst ` set (items c') = fst ` set (items c)"
    using p unfolding it by (metis update_keys map_of_eq_None_iff option.distinct(1)
        insert_absorb list.set_map dom_update)
  moreover have "\<forall>j \<in> fst ` set (items c). \<not> nullish j" using w by (auto simp: wellFormed_def)
  ultimately have "\<forall>(j, ob') \<in> set (items c'). \<not> nullish j" by force
  with w sd show "wellFormed c'" by (rule wellFormed_indexes)
qed

lemma upsert_wellFormed:
  assumes w: "wellFormed c" and up: "upsert c arg = (Inr i, c')"
  shows "wellFormed c'" "sameDefs (indexes c) (indexes c')"
proof -
  have "wellFormed c' \<and> sameDefs (indexes c) (indexes c')"
  proof (cases "mapHas (items c) (getProp (argFields arg) (primaryKey c))")
    case True
    with up obtain ob where u: "update c (getProp (argFields arg) (primaryKey c)) arg = (Inr ob, c')"
      by (auto simp: upsert_def Let_def split: if_splits prod.splits sum.splits)
    show ?thesis using update_wellFormed [OF w u] by simp
  next
    case False
    with up have "insert_q c (argFields arg) = (Inr i, c')"
      by (auto simp: upsert_def Let_def split: if_splits)
    then show ?thesis using insert_wellFormed [OF w] by simp
  qed
  then show "wellFormed c'" "sameDefs (indexes c) (indexes c')" by simp_all
qed

lemma defineIndex_kind:
  assumes "defineIndex c d = (Inr u, c')"
  shows "(case d_kind d of None \<Rightarrow> ''eq'' | Some k \<Rightarrow> k) \<in> set [''eq'', ''range'', ''prefix'']"
  using assms by (auto simp: defineIndex_def Let_def split: if_splits)

lemma define_wellFormed:
  assumes w: "wellFormed c" and df: "defineIndex c d = (Inr u, c')"
  shows "wellFormed c'"
proof -
  from defineIndex_success [OF df] obtain def def' where
    f: "map_of (indexes c) (d_name d) = None"
    and d: "def = \<lparr>name = d_name d, keySpec = d_key d,
                   unique = (case d_unique d of None \<Rightarrow> False | Some u \<Rightarrow> u),
                   kind = (case d_kind d of None \<Rightarrow> ''eq'' | Some k \<Rightarrow> k),
                   compare = (case d_compare d of None \<Rightarrow> defaultCompare | Some f \<Rightarrow> f),
                   eq_map = Map.empty, range_arr = [], prefix_root = makeTrieNode\<rparr>"
    and b: "backfill (primaryKey c) def (map snd (items c)) = (None, def')"
    and ix: "indexes c' = indexes c @ [(d_name d, def')]"
    and it: "items c' = items c"
    by blast
  note sd = backfill_sameDef [OF b]
  have nm: "name def' = d_name d" using sd d by (simp add: sameDef_def)
  have kd: "kind def' \<in> set [''eq'', ''range'', ''prefix'']"
    using sd d defineIndex_kind [OF df] by (simp add: sameDef_def)
  have "d_name d \<notin> fst ` set (indexes c)" using f by (simp add: map_of_eq_None_iff)
  then show ?thesis
    using w nm kd unfolding wellFormed_def ix it by auto
qed

lemma defineAll_wellFormed:
  "wellFormed c \<Longrightarrow> defineAll c ds = Inr c' \<Longrightarrow> wellFormed c'"
proof (induction ds arbitrary: c)
  case Nil
  then show ?case by simp
next
  case (Cons d ds)
  from Cons.prems(2) obtain k u c1 where
    d: "defineIndex c \<lparr>d_name = s_name d, d_key = k, d_unique = Some (s_unique d),
                        d_kind = Some (s_kind d), d_compare = None\<rparr> = (Inr u, c1)"
    and r: "defineAll c1 ds = Inr c'"
    by (auto split: sum.splits prod.splits)
  have "wellFormed c1" using Cons.prems(1) d by (rule define_wellFormed)
  then show ?case using r by (rule Cons.IH)
qed

lemma insertAll_wellFormed:
  "wellFormed c \<Longrightarrow> insertAll c obs = Inr c' \<Longrightarrow> wellFormed c'"
proof (induction obs arbitrary: c)
  case Nil
  then show ?case by simp
next
  case (Cons ob obs)
  from Cons.prems(2) obtain i c1 where
    d: "insert_q c ob = (Inr i, c1)" and r: "insertAll c1 obs = Inr c'"
    by (auto split: sum.splits prod.splits)
  have "wellFormed c1" using Cons.prems(1) d by (rule insert_wellFormed)
  then show ?case using r by (rule Cons.IH)
qed

lemma deserialize_wellFormed:
  assumes "deserialize data = Inr r"
  shows "wellFormed r"
proof -
  from assms obtain c1 where d1: "defineAll (newQuerium (sd_primaryKey data)) (sd_indexDefs data) = Inr c1"
    and i: "insertAll c1 (sd_items data) = Inr r"
    by (auto simp: deserialize_def split: sum.splits)
  have "wellFormed c1" using wellFormed_new d1 by (rule defineAll_wellFormed)
  then show ?thesis using i by (rule insertAll_wellFormed)
qed

lemma wellFormed_cong:
  "items c' = items c \<Longrightarrow> indexes c' = indexes c \<Longrightarrow> wellFormed c' = wellFormed c"
  by (simp add: wellFormed_def)

lemma rollback_wellFormed:
  assumes w: "wellFormed c" and rb: "rollback c = (Inr b, c')"
  shows "wellFormed c'"
proof (cases "snapshots c = []")
  case True
  with rb w show ?thesis by (simp add: rollback_def)
next
  case False
  with rb obtain r where d: "deserialize (last (snapshots c)) = Inr r"
    and c': "c' = c\<lparr>snapshots := butlast (snapshots c), primaryKey := primaryKey r,
                     items := items r, indexes := indexes r\<rparr>"
    by (auto simp: rollback_def Let_def split: sum.splits)
  have "wellFormed r" using d by (rule deserialize_wellFormed)
  then show ?thesis using wellFormed_cong [of c' r] c' by simp
qed

lemma stepOk_wellFormed:
  assumes w: "wellFormed c" and s: "stepOk c x = Some c'"
  shows "wellFormed c'"
proof (cases x)
  case (Define d)
  with s obtain u where "defineIndex c d = (Inr u, c')"
    by (auto split: prod.splits sum.splits)
  then show ?thesis by (rule define_wellFormed [OF w])
next
  case (Insert ob)
  with s obtain i where "insert_q c ob = (Inr i, c')"
    by (auto split: prod.splits sum.splits)
  then show ?thesis by (rule insert_wellFormed [OF w])
next
  case (Upsert arg)
  with s obtain i where "upsert c arg = (Inr i, c')"
    by (auto split: prod.splits sum.splits)
  then show ?thesis by (rule upsert_wellFormed [OF w])
next
  case (Update i arg)
  with s obtain ob where "update c i arg = (Inr ob, c')"
    by (auto split: prod.splits sum.splits if_splits)
  then show ?thesis by (rule update_wellFormed [OF w])
next
  case (Remove i)
  with s obtain b where "remove c i = (Inr b, c')"
    by (auto split: prod.splits sum.splits)
  then show ?thesis by (rule remove_wellFormed [OF w])
next
  case Snapshot
  with s have "c' = snd (snapshot c)" by simp
  then show ?thesis using w wellFormed_cong [of c' c] by (simp add: snapshot_def Let_def)
next
  case Rollback
  with s obtain b where "rollback c = (Inr b, c')"
    by (auto split: prod.splits sum.splits)
  then show ?thesis by (rule rollback_wellFormed [OF w])
qed

lemma runOk_wellFormed:
  "wellFormed c \<Longrightarrow> runOk c ops = Some c' \<Longrightarrow> wellFormed c'"
proof (induction ops arbitrary: c)
  case Nil
  then show ?case by simp
next
  case (Cons x xs)
  from Cons.prems(2) obtain c1 where s: "stepOk c x = Some c1" and r: "runOk c1 xs = Some c'"
    by (auto split: option.splits)
  have "wellFormed c1" using Cons.prems(1) s by (rule stepOk_wellFormed)
  then show ?case using r by (rule Cons.IH)
qed

end
